theory Spec2Isabelle
  imports Complex_Main "HOL-Library.Word"
begin

unbundle bit_operations_syntax

section \<open>The tunnel manager of tunnel.c\<close>

text \<open>
  A shallow embedding of \<^verbatim>\<open>src/tunnel.c\<close>. The module keeps its state in file-scope
  variables; here they are the fields of one record, passed in and returned. Tunnel
  records are reached through pointers and one record can be referenced from both sets,
  so the records live in an explicit store (\<open>heap\<close>) and the sets hold addresses.

  Conventions of the embedding:
  \<^item> a function that can go wrong returns \<open>error + 'a\<close>; \<open>Inl\<close> is the failure;
  \<^item> what the module does to the outside (log lines, driver calls, threads it creates,
    sleeps) is appended to the \<open>trace\<close> field;
  \<^item> what the outside does to the module (what a driver call returns, random numbers,
    whether a file can be opened, what other threads do to the shared state while this
    thread sleeps or waits for the driver) is an explicit argument;
  \<^item> constants and functions declared in headers outside \<^verbatim>\<open>tunnel.c\<close> are the fields
    of the record \<open>platform\<close>;
  \<^item> a C \<^verbatim>\<open>double\<close> is a real number, and every floating-point operation returns
    \<open>rnd\<close> of its exact result, where \<open>rnd\<close> is the platform's rounding; \<open>rnd = (\<lambda>x. x)\<close> is
    exact arithmetic. Literals that are small dyadic rationals (0, 0.75, 1) are exact;
  \<^item> \<^verbatim>\<open>size_t\<close> and \<^verbatim>\<open>uint64_t\<close> are 64-bit words, \<^verbatim>\<open>unsigned\<close> and \<^verbatim>\<open>uint32_t\<close> 32-bit
    words, \<^verbatim>\<open>uint16_t\<close> a 16-bit and \<^verbatim>\<open>uint8_t\<close> an 8-bit word; \<^verbatim>\<open>char\<close> is signed;
  \<^item> a \<^verbatim>\<open>const char *\<close> is a C string, the characters before the first NUL; the texts
    of log lines and warnings are abridged;
  \<^item> an array keeps what was written to it, also in the entries past its length; memory
    that \<^verbatim>\<open>realloc\<close> returned and the module has not written, and memory after the end
    of an array, holds what the platform says (\<open>unwritten\<close>);
  \<^item> following a pointer that is \<open>NULL\<close> or does not point to a record of the store is the
    failure \<open>Bad_pointer\<close>: the C program has no defined behaviour from there on (with
    \<open>NULL\<close> the process ends), and the embedding stops.

  The reconnect manager, the HTML listing and the initialisation of the module are
  not embedded.
\<close>

subsection \<open>Data\<close>

type_synonym addr = nat

type_synonym cktp_tunnel_t = "nat option"

datatype state_t =
    TUNNEL_STATE_CLOSED
  | TUNNEL_STATE_OPENING
  | TUNNEL_STATE_OPEN
  | TUNNEL_STATE_DEAD
  | TUNNEL_STATE_CLOSING
  | TUNNEL_STATE_DELETING

definition TUNNEL_INIT_AGE :: "8 word" where
  "TUNNEL_INIT_AGE = 16"

record tunnel_s =
  t_tunnel :: cktp_tunnel_t
  t_state :: state_t
  t_reconnect :: bool
  t_id :: "16 word"
  t_age :: "8 word"
  t_weight :: real
  t_url :: string

text \<open>
  A set of tunnels: \<open>tunnels\<close> is the array's first \<open>length\<close> entries (the C field
  \<open>length\<close> is the list's length), \<open>set_size\<close> the allocated size, and \<open>spare\<close> the
  entries of the array from index \<open>length\<close> on: each holds the pointer last written
  to it, or was never written.
\<close>

datatype entry = Unwritten | Holds addr

record tunnel_set_s =
  tunnels :: "addr list"
  set_size :: nat
  spare :: "entry list"

definition TUNNEL_SET_INIT :: tunnel_set_s where
  "TUNNEL_SET_INIT = \<lparr>tunnels = [], set_size = 0, spare = []\<rparr>"

definition TUNNEL_SET_INIT_SIZE :: nat where
  "TUNNEL_SET_INIT_SIZE = 16"

record tunnel_history_s =
  h_hash :: "32 word"
  h_id :: "16 word"

definition TUNNEL_HISTORY_SIZE :: "64 word" where
  "TUNNEL_HISTORY_SIZE = 1024"

definition UINT32_MAX :: real where
  "UINT32_MAX = 4294967295"

datatype filename = TUNNELS_FILENAME | TUNNELS_BAK_FILENAME | TUNNELS_TMP_FILENAME

datatype thread =
    Tunnel_activate addr
  | Tunnel_reconnect string
  | Tunnel_activate_manager
  | Tunnel_reconnect_manager

text \<open>
  A packet is its IPv4 total length (as \<open>ntohs\<close> returns it) and the rest of its bytes;
  the array \<open>packets\<close>, which ends with \<open>NULL\<close>, is a list.
\<close>

record packet =
  tot_len :: "16 word"
  bytes :: "8 word list"

datatype event =
    Log string
  | Warning string
  | Thread_create thread
  | Sleeptime nat
  | Cktp_open_tunnel string cktp_tunnel_t
  | Cktp_close_tunnel cktp_tunnel_t
  | Cktp_fragmentation_required cktp_tunnel_t "16 word" packet
  | Cktp_tunnel_packet cktp_tunnel_t packet

datatype error = Bad_pointer | Panic | Deadlock

record tunnels_state =
  tunnels_lock :: bool
  heap :: "addr \<rightharpoonup> tunnel_s"
  brk :: addr
  next_id :: "16 word"
  tunnels_cache :: tunnel_set_s
  tunnels_active :: tunnel_set_s
  tunnel_history :: "nat \<Rightarrow> tunnel_history_s"
  files :: "filename \<rightharpoonup> string"
  trace :: "event list"

record platform =
  CKTP_MAX_URL_LENGTH :: nat
  PROGRAM_NAME_LONG :: string
  SECONDS :: "64 word"
  MILLISECONDS :: "64 word"
  cktp_parse_url :: "string \<Rightarrow> bool"
  cktp_tunnel_get_mtu :: "cktp_tunnel_t \<Rightarrow> 16 word \<Rightarrow> 16 word"
  rnd :: "real \<Rightarrow> real"
  unwritten :: "nat \<Rightarrow> addr option"

definition emit :: "event \<Rightarrow> tunnels_state \<Rightarrow> tunnels_state" where
  "emit e st = st\<lparr>trace := trace st @ [e]\<rparr>"

text \<open>
  The mutex. The embedding runs one thread at a time, so taking a mutex that is held
  never returns.
\<close>

definition thread_lock :: "tunnels_state \<Rightarrow> error + tunnels_state" where
  "thread_lock st = (if tunnels_lock st then Inl Deadlock else Inr (st\<lparr>tunnels_lock := True\<rparr>))"

definition thread_unlock :: "tunnels_state \<Rightarrow> tunnels_state" where
  "thread_unlock st = st\<lparr>tunnels_lock := False\<rparr>"

text \<open>The records a list of pointers refers to; \<open>None\<close> when one of them is dangling.\<close>

definition deref_all :: "tunnels_state \<Rightarrow> addr list \<Rightarrow> tunnel_s list option" where
  "deref_all st ps = those (map (heap st) ps)"

subsection \<open>Decimal numbers (printf's and scanf's \<^verbatim>\<open>%u\<close>)\<close>

definition digit_char :: "nat \<Rightarrow> char" where
  "digit_char d = char_of (of_char CHR ''0'' + d)"

fun dec :: "nat \<Rightarrow> string" where
  "dec n = (if n < 10 then [digit_char n] else dec (n div 10) @ [digit_char (n mod 10)])"

declare dec.simps [simp del]

subsection \<open>Sets of tunnels\<close>

text \<open>
  \<open>malloc\<close> and \<open>realloc\<close> are taken to succeed: where they fail the module calls
  \<open>error\<close>, which ends the process. \<open>realloc\<close> keeps the entries the array had and adds
  entries that are not written; the pointer inserted is written to the first entry past
  the length.
\<close>

definition tunnel_set_insert :: "tunnel_set_s \<Rightarrow> addr \<Rightarrow> tunnel_set_s" where
  "tunnel_set_insert s p =
     (let s1 = (if length (tunnels s) \<ge> set_size s
                then (let n = (if set_size s = 0 then TUNNEL_SET_INIT_SIZE
                               else set_size s * 2)
                      in s\<lparr>set_size := n,
                           spare := spare s @ replicate (n - set_size s) Unwritten\<rparr>)
                else s)
      in s1\<lparr>tunnels := tunnels s1 @ [p], spare := tl (spare s1)\<rparr>)"

text \<open>
  What \<^verbatim>\<open>tunnel_set->tunnels[i]\<close> reads (\<open>None\<close> is \<open>NULL\<close>): below the length the entry of
  the set, past it what the array holds there, and what the memory holds where the
  array was never written or has ended.
\<close>

definition tunnel_set_read :: "platform \<Rightarrow> tunnel_set_s \<Rightarrow> nat \<Rightarrow> addr option" where
  "tunnel_set_read P s i =
     (if i < length (tunnels s) then Some (tunnels s ! i)
      else if i - length (tunnels s) < length (spare s)
      then (case spare s ! (i - length (tunnels s)) of
              Unwritten \<Rightarrow> unwritten P i
            | Holds p \<Rightarrow> Some p)
      else unwritten P i)"

text \<open>
  The three searches compare the url of each record in turn with the one looked for, so
  each takes the store. \<open>tunnel_set_replace\<close> and \<open>tunnel_set_delete\<close> return the record
  found (\<open>None\<close> is \<open>NULL\<close>) and the set; \<open>tunnel_set_lookup\<close> returns the index, or -1.
  \<open>tunnel_set_delete\<close> moves the entries after the one found down by one and lowers the
  length; the entry that was the last keeps its pointer, now past the length.
\<close>

fun replace_from ::
  "(addr \<rightharpoonup> tunnel_s) \<Rightarrow> addr list \<Rightarrow> string \<Rightarrow> addr \<Rightarrow> error + (addr option \<times> addr list)"
where
  "replace_from h [] u p = Inr (None, [])"
| "replace_from h (q # qs) u p =
     (case h q of
        None \<Rightarrow> Inl Bad_pointer
      | Some tunnel_old \<Rightarrow>
          if t_url tunnel_old = u then Inr (Some q, p # qs)
          else (case replace_from h qs u p of
                  Inl e \<Rightarrow> Inl e
                | Inr (r, qs') \<Rightarrow> Inr (r, q # qs')))"

definition tunnel_set_replace ::
  "tunnels_state \<Rightarrow> tunnel_set_s \<Rightarrow> addr \<Rightarrow> error + (addr option \<times> tunnel_set_s)"
where
  "tunnel_set_replace st s p =
     (case heap st p of
        None \<Rightarrow> Inl Bad_pointer
      | Some t \<Rightarrow>
          (case replace_from (heap st) (tunnels s) (t_url t) p of
             Inl e \<Rightarrow> Inl e
           | Inr (r, qs) \<Rightarrow> Inr (r, s\<lparr>tunnels := qs\<rparr>)))"

fun delete_from ::
  "(addr \<rightharpoonup> tunnel_s) \<Rightarrow> addr list \<Rightarrow> string \<Rightarrow> error + (addr option \<times> addr list)"
where
  "delete_from h [] u = Inr (None, [])"
| "delete_from h (q # qs) u =
     (case h q of
        None \<Rightarrow> Inl Bad_pointer
      | Some t \<Rightarrow>
          if t_url t = u then Inr (Some q, qs)
          else (case delete_from h qs u of
                  Inl e \<Rightarrow> Inl e
                | Inr (r, qs') \<Rightarrow> Inr (r, q # qs')))"

definition tunnel_set_delete ::
  "tunnels_state \<Rightarrow> tunnel_set_s \<Rightarrow> string \<Rightarrow> error + (addr option \<times> tunnel_set_s)"
where
  "tunnel_set_delete st s u =
     (case delete_from (heap st) (tunnels s) u of
        Inl e \<Rightarrow> Inl e
      | Inr (None, qs) \<Rightarrow> Inr (None, s)
      | Inr (Some q, qs) \<Rightarrow>
          Inr (Some q, s\<lparr>tunnels := qs, spare := Holds (last (tunnels s)) # spare s\<rparr>))"

fun lookup_from :: "(addr \<rightharpoonup> tunnel_s) \<Rightarrow> addr list \<Rightarrow> string \<Rightarrow> nat \<Rightarrow> error + int" where
  "lookup_from h [] u i = Inr (- 1)"
| "lookup_from h (q # qs) u i =
     (case h q of
        None \<Rightarrow> Inl Bad_pointer
      | Some t \<Rightarrow> if t_url t = u then Inr (int i) else lookup_from h qs u (Suc i))"

definition tunnel_set_lookup :: "tunnels_state \<Rightarrow> tunnel_set_s \<Rightarrow> string \<Rightarrow> error + int" where
  "tunnel_set_lookup st s u = lookup_from (heap st) (tunnels s) u 0"

subsection \<open>Creating and freeing a record\<close>

text \<open>
  \<open>malloc\<close> returns the address \<open>brk\<close>, which is then moved on. The static counter
  \<open>id\<close> of \<open>tunnel_create\<close> is the field \<open>next_id\<close>; it is 16 bits wide and wraps.
  \<open>strncpy\<close> keeps at most \<open>CKTP_MAX_URL_LENGTH\<close> characters of the url.
\<close>

definition tunnel_create ::
  "platform \<Rightarrow> tunnels_state \<Rightarrow> string \<Rightarrow> 8 word \<Rightarrow> addr \<times> tunnels_state"
where
  "tunnel_create P st u a =
     (let p = brk st;
          t = \<lparr>t_tunnel = None, t_state = TUNNEL_STATE_CLOSED, t_reconnect = False,
               t_id = next_id st, t_age = a, t_weight = 1,
               t_url = take (CKTP_MAX_URL_LENGTH P) u\<rparr>
      in (p, st\<lparr>heap := (heap st)(p \<mapsto> t), brk := Suc p, next_id := next_id st + 1\<rparr>))"

definition tunnel_free :: "tunnels_state \<Rightarrow> addr option \<Rightarrow> error + tunnels_state" where
  "tunnel_free st tp =
     (case tp of
        None \<Rightarrow> Inr st
      | Some p \<Rightarrow>
          (case heap st p of
             None \<Rightarrow> Inl Bad_pointer
           | Some t \<Rightarrow>
               (case t_state t of
                  TUNNEL_STATE_OPENING \<Rightarrow>
                    Inr (st\<lparr>heap := (heap st)(p \<mapsto> t\<lparr>t_state := TUNNEL_STATE_DELETING\<rparr>)\<rparr>)
                | TUNNEL_STATE_DELETING \<Rightarrow> Inr st
                | _ \<Rightarrow>
                    (let st1 = emit (Cktp_close_tunnel (t_tunnel t)) st
                     in Inr (st1\<lparr>heap := (heap st1)(p := None)\<rparr>)))))"

subsection \<open>The selector\<close>

text \<open>Lines 620-624: the loop that adds up the weights.\<close>

fun sum_weights :: "(real \<Rightarrow> real) \<Rightarrow> real \<Rightarrow> real list \<Rightarrow> real" where
  "sum_weights r acc [] = acc"
| "sum_weights r acc (w # ws) = sum_weights r (r (acc + w)) ws"

text \<open>
  Lines 627-632: the walk. It returns the index it stops at and what is left of
  \<open>pick\<close>; the index is the length of the list when no weight exceeded \<open>pick\<close>.
\<close>

fun walk :: "(real \<Rightarrow> real) \<Rightarrow> real list \<Rightarrow> nat \<Rightarrow> real \<Rightarrow> nat \<times> real" where
  "walk r [] idx pick = (idx, pick)"
| "walk r (w # ws) idx pick =
     (if pick \<ge> w then walk r ws (Suc idx) (r (pick - w)) else (idx, pick))"

text \<open>Lines 645-657: the first index whose record has the given id.\<close>

fun find_id :: "tunnel_s list \<Rightarrow> 16 word \<Rightarrow> nat \<Rightarrow> nat option" where
  "find_id [] hid i = None"
| "find_id (t # ts) hid i = (if t_id t = hid then Some i else find_id ts hid (Suc i))"

definition punish :: "platform \<Rightarrow> tunnel_s \<Rightarrow> tunnel_s" where
  "punish P t =
     (let w = rnd P (t_weight t * 0.75)
      in t\<lparr>t_weight := (if w < rnd P 0.005 then rnd P 0.005 else w)\<rparr>)"

definition reward :: "platform \<Rightarrow> tunnel_s \<Rightarrow> tunnel_s" where
  "reward P t =
     (let w = rnd P (t_weight t + rnd P (rnd P 0.15 * t_weight t))
      in t\<lparr>t_weight := (if w > 1 then 1 else w)\<rparr>)"

text \<open>
  Lines 641-658, taken when \<open>repeat\<close> is not 0: the tunnel the history names for this
  hash, if it is active, loses a quarter of its weight. The result is \<open>bad_tunnel\<close>
  (\<open>None\<close> is \<open>NULL\<close>). The statement \<^verbatim>\<open>pick -= bad_tunnel->weight\<close> is left out: \<open>pick\<close> is
  not read again.
\<close>

definition punish_history ::
  "platform \<Rightarrow> tunnels_state \<Rightarrow> tunnel_s list \<Rightarrow> nat \<Rightarrow> 32 word \<Rightarrow> addr option \<times> tunnels_state"
where
  "punish_history P st ts hist_idx hist_hash =
     (if h_hash (tunnel_history st hist_idx) = hist_hash
      then (case find_id ts (h_id (tunnel_history st hist_idx)) 0 of
              None \<Rightarrow> (None, st)
            | Some i \<Rightarrow>
                (let bad_tunnel = tunnels (tunnels_active st) ! i
                 in (Some bad_tunnel,
                     st\<lparr>heap := (heap st)(bad_tunnel \<mapsto> punish P (ts ! i))\<rparr>)))
      else (None, st))"

text \<open>
  Lines 668-676: the chosen tunnel gains weight and is written to the history.
  \<open>tunnel\<close> is the pointer the lines before have left in the variable of that name.
\<close>

definition assume_success ::
  "platform \<Rightarrow> tunnels_state \<Rightarrow> addr option \<Rightarrow> nat \<Rightarrow> 32 word
     \<Rightarrow> error + (addr option \<times> tunnels_state)"
where
  "assume_success P st tunnel hist_idx hist_hash =
     (case tunnel of
        None \<Rightarrow> Inl Bad_pointer
      | Some p \<Rightarrow>
          (case heap st p of
             None \<Rightarrow> Inl Bad_pointer
           | Some t \<Rightarrow>
               (let t' = reward P t;
                    st1 = st\<lparr>heap := (heap st)(p \<mapsto> t')\<rparr>
                in Inr (Some p,
                     st1\<lparr>tunnel_history := (tunnel_history st1)
                           (hist_idx := \<lparr>h_hash = hist_hash, h_id = t_id t'\<rparr>)\<rparr>))))"

text \<open>
  Lines 618-632: the index \<open>idx\<close> the walk ends with, from the records of the active set.
  The loop stops at the length of the set where no weight exceeded \<open>pick\<close>.
\<close>

definition tunnel_get_idx :: "platform \<Rightarrow> tunnel_s list \<Rightarrow> 64 word \<Rightarrow> 32 word \<Rightarrow> nat" where
  "tunnel_get_idx P ts hash repeat =
     (let hist_hash = (ucast (hash XOR drop_bit 32 hash) :: 32 word);
          weight_hash = hist_hash * (repeat + 1);
          total_weight = sum_weights (rnd P) 0 (map t_weight ts);
          pick = rnd P (rnd P (real (unat weight_hash) / UINT32_MAX) * total_weight)
      in fst (walk (rnd P) (map t_weight ts) 0 pick))"

text \<open>
  \<open>tunnel_get\<close>, lines 609-677. Line 633 reads \<^verbatim>\<open>tunnels_active.tunnels[idx]\<close> whatever
  \<open>idx\<close> is, and the lines after it go on with the pointer read; line 659 compares two
  pointers, either of which can be \<open>NULL\<close>.
\<close>

definition tunnel_get ::
  "platform \<Rightarrow> tunnels_state \<Rightarrow> 64 word \<Rightarrow> 32 word \<Rightarrow> error + (addr option \<times> tunnels_state)"
where
  "tunnel_get P st hash repeat =
     (let act = tunnels (tunnels_active st) in
      if length act = 0 then Inr (None, st)
      else
        let hist_idx = unat (hash mod TUNNEL_HISTORY_SIZE);
            hist_hash = (ucast (hash XOR drop_bit 32 hash) :: 32 word)
        in case deref_all st act of
             None \<Rightarrow> Inl Bad_pointer
           | Some ts \<Rightarrow>
               let idx = tunnel_get_idx P ts hash repeat;
                   tunnel = tunnel_set_read P (tunnels_active st) idx;
                   (bad_tunnel, st1) =
                      (if repeat \<noteq> 0 then punish_history P st ts hist_idx hist_hash
                       else (None, st));
                   tunnel1 = (if repeat \<noteq> 0 \<and> tunnel = bad_tunnel
                              then Some (act ! ((idx + 1) mod length act))
                              else tunnel)
               in assume_success P st1 tunnel1 hist_idx hist_hash)"

subsection \<open>Tunnelling a packet\<close>

text \<open>Lines 578-588: whether every packet fits, logging from the first that does not.\<close>

fun fit_loop :: "16 word \<Rightarrow> packet list \<Rightarrow> bool \<Rightarrow> tunnels_state \<Rightarrow> bool \<times> tunnels_state" where
  "fit_loop mtu [] fit st = (fit, st)"
| "fit_loop mtu (p # ps) fit st =
     (let fit' = (fit \<and> unat (tot_len p) \<le> unat mtu);
          st' = (if \<not> fit'
                 then emit (Log (''unable tunnel packet of size '' @ dec (unat (tot_len p)) @
                        '' bytes; maximum allowed packet size is '' @ dec (unat mtu) @
                        '' bytes'')) st
                 else st)
      in fit_loop mtu ps fit' st')"

definition tunnel_packets ::
  "platform \<Rightarrow> tunnels_state \<Rightarrow> packet \<Rightarrow> packet list \<Rightarrow> 64 word \<Rightarrow> 32 word \<Rightarrow> 16 word
     \<Rightarrow> error + (bool \<times> tunnels_state)"
where
  "tunnel_packets P st pkt packets hash repeat config_mtu =
     (case thread_lock st of
        Inl e \<Rightarrow> Inl e
      | Inr st1 \<Rightarrow>
          (case tunnel_get P st1 hash repeat of
             Inl e \<Rightarrow> Inl e
           | Inr (None, st2) \<Rightarrow>
               Inr (False,
                 emit (Warning (''unable to tunnel packet (no suitable tunnel is open); '' @
                         ''the packet will be dropped''))
                   (thread_unlock st2))
           | Inr (Some tunnel, st2) \<Rightarrow>
               (case heap st2 tunnel of
                  None \<Rightarrow> Inl Bad_pointer
                | Some t \<Rightarrow>
                    let mtu = cktp_tunnel_get_mtu P (t_tunnel t) config_mtu in
                    if mtu = 0 then Inr (False, st2)
                    else
                      let (fit, st3) = fit_loop mtu packets True st2 in
                      if \<not> fit
                      then Inr (True,
                             thread_unlock
                               (emit (Cktp_fragmentation_required (t_tunnel t) mtu pkt) st3))
                      else Inr (True,
                             thread_unlock
                               (fold (\<lambda>p. emit (Cktp_tunnel_packet (t_tunnel t) p)) packets st3)))))"

subsection \<open>The cache file\<close>

definition newline :: char where
  "newline = CHR 0x0A"

text \<open>Lines 345-355: what \<open>tunnel_file_write\<close> prints for the records of the cache.\<close>

definition cache_block :: "tunnel_s \<Rightarrow> string" where
  "cache_block t =
     ''# AGE = '' @ dec (unat (t_age t)) @ [newline] @
     t_url t @ '' '' @ dec (unat (t_age t)) @ [newline, newline]"

definition cache_text :: "platform \<Rightarrow> tunnel_s list \<Rightarrow> string" where
  "cache_text P ts =
     ''# '' @ PROGRAM_NAME_LONG P @ '' tunnel cache'' @ [newline] @
     ''# AUTOMATICALLY GENERATED, DO NOT EDIT'' @ [newline, newline] @
     concat (map cache_block (filter (\<lambda>t. t_age t \<noteq> 0) ts))"

text \<open>
  The file system is the three files the module names. \<open>rename\<close> fails when the old
  file does not exist or the outside forbids it; whether the temporary file can be
  opened for writing is up to the outside too (\<open>fs_env\<close>). The \<^verbatim>\<open>#ifdef WINDOWS\<close> lines
  are not part of the embedding.
\<close>

record fs_env =
  can_backup :: bool
  can_open_tmp :: bool
  can_install :: bool

definition rename_file ::
  "bool \<Rightarrow> filename \<Rightarrow> filename \<Rightarrow> tunnels_state \<Rightarrow> bool \<times> tunnels_state"
where
  "rename_file permitted old new st =
     (case files st old of
        None \<Rightarrow> (False, st)
      | Some txt \<Rightarrow>
          if permitted then (True, st\<lparr>files := ((files st)(old := None))(new \<mapsto> txt)\<rparr>)
          else (False, st))"

definition tunnel_file_write :: "platform \<Rightarrow> fs_env \<Rightarrow> tunnels_state \<Rightarrow> error + tunnels_state" where
  "tunnel_file_write P F st =
     (case thread_lock st of
        Inl e \<Rightarrow> Inl e
      | Inr st1 \<Rightarrow>
          let (ok, st2) = rename_file (can_backup F) TUNNELS_FILENAME TUNNELS_BAK_FILENAME st1;
              st3 = (if \<not> ok then emit (Warning ''unable to backup old tunnel cache file'') st2
                     else st2)
          in if \<not> can_open_tmp F
             then Inr (emit (Warning ''unable to open tunnel cache file for writing'') st3)
             else
               (case deref_all st3 (tunnels (tunnels_cache st3)) of
                  None \<Rightarrow> Inl Bad_pointer
                | Some ts \<Rightarrow>
                    let st4 = st3\<lparr>files := (files st3)(TUNNELS_TMP_FILENAME \<mapsto> cache_text P ts)\<rparr>;
                        (ok', st5) =
                           rename_file (can_install F) TUNNELS_TMP_FILENAME TUNNELS_FILENAME st4;
                        st6 = (if \<not> ok'
                               then emit (Warning ''unable to move temporary tunnel cache file'') st5
                               else st5)
                    in Inr (thread_unlock st6)))"

text \<open>
  Reading. The stream is the list of characters not read yet; \<open>getc\<close> at its end
  returns \<open>EOF\<close> and sets the end-of-file indicator. No read error happens (\<open>ferror\<close> is
  false). \<open>char\<close> is signed, as on x86: \<open>EOF\<close> stored in a \<open>char\<close> is the byte 0xFF, and a
  \<open>char\<close> equals \<open>EOF\<close> when it is that byte.

  Lines 280-283: the rest of a comment line. A byte 0xFF ends it as a newline does.
\<close>

fun skip_comment :: "string \<Rightarrow> string" where
  "skip_comment [] = []"
| "skip_comment (c # cs) = (if c = newline \<or> c = CHR 0xFF then cs else skip_comment cs)"

text \<open>
  Lines 285-290: the url. \<open>url\<close> is the buffer up to and including \<open>url[i]\<close>, so \<open>i\<close> is
  its length less one. At the end of the stream \<open>getc\<close> stores 0xFF and sets the
  indicator, which ends the loop.
\<close>

fun read_url :: "nat \<Rightarrow> string \<Rightarrow> string \<Rightarrow> string \<times> string" where
  "read_url mx url [] =
     (if last url \<noteq> CHR '' '' \<and> length url - 1 < mx then (url @ [CHR 0xFF], []) else (url, []))"
| "read_url mx url (c # cs) =
     (if last url \<noteq> CHR '' '' \<and> length url - 1 < mx then read_url mx (url @ [c]) cs
      else (url, c # cs))"

text \<open>The string a \<open>char\<close> array holds: the characters before the first NUL.\<close>

definition c_string :: "string \<Rightarrow> string" where
  "c_string buf = takeWhile (\<lambda>c. c \<noteq> CHR 0x00) buf"

text \<open>
  \<^verbatim>\<open>fscanf(file, "%u", &age)\<close>: white space is skipped, a sign is accepted, and the
  digits that follow are the number; a minus sign negates it as an \<open>unsigned\<close>. The
  result is \<open>None\<close> when \<open>fscanf\<close> does not return 1. A number that does not fit an
  \<open>unsigned\<close> of 32 bits has no defined conversion in C; the GNU C library converts the
  digits as \<open>strtoul\<close> does, to 64 bits and to \<open>ULONG_MAX\<close> where they do not fit, and stores
  the low 32 bits.
\<close>

definition isspace :: "char \<Rightarrow> bool" where
  "isspace c = (c = CHR '' '' \<or> (9 \<le> (of_char c :: nat) \<and> (of_char c :: nat) \<le> 13))"

definition isdigit :: "char \<Rightarrow> bool" where
  "isdigit c = (48 \<le> (of_char c :: nat) \<and> (of_char c :: nat) \<le> 57)"

fun scan_digits :: "nat \<Rightarrow> string \<Rightarrow> nat \<times> string" where
  "scan_digits n [] = (n, [])"
| "scan_digits n (c # cs) =
     (if isdigit c then scan_digits (n * 10 + (of_char c - 48)) cs else (n, c # cs))"

definition scan_unsigned :: "string \<Rightarrow> (nat \<times> string) option" where
  "scan_unsigned cs =
     (let cs1 = dropWhile isspace cs;
          (neg, cs2) = (case cs1 of
                          [] \<Rightarrow> (False, [])
                        | c # r \<Rightarrow> if c = CHR ''+'' then (False, r)
                                   else if c = CHR ''-'' then (True, r)
                                   else (False, cs1))
      in case cs2 of
           [] \<Rightarrow> None
         | c # _ \<Rightarrow>
             if \<not> isdigit c then None
             else
               let (n, cs3) = scan_digits 0 cs2;
                   ul = (if n \<ge> 2 ^ 64 then 2 ^ 64 - 1
                         else if neg then (2 ^ 64 - n) mod 2 ^ 64 else n)
               in Some (ul mod 2 ^ 32, cs3))"

text \<open>
  Lines 256-318 without the insertion into the cache: the (url, age) pairs the loop
  reads, in order, and how the loop ended.
\<close>

datatype parse_end = End_of_file | Bad_url | Bad_age string | Bad_end_of_line string

lemma skip_comment_length: "length (skip_comment cs) \<le> length cs"
  by (induction cs) auto

lemma read_url_length: "length (snd (read_url mx url cs)) \<le> length cs"
  by (induction cs arbitrary: url) (auto simp: le_SucI)

lemma scan_digits_length: "length (snd (scan_digits n cs)) \<le> length cs"
  by (induction cs arbitrary: n) (auto simp: le_SucI)

lemma scan_unsigned_length: "scan_unsigned cs = Some (n, cs') \<Longrightarrow> length cs' \<le> length cs"
proof -
  have d: "length (dropWhile isspace cs) \<le> length cs"
    by (rule length_dropWhile_le)
  have s: "\<And>k xs. length (snd (scan_digits k xs)) \<le> length xs"
    by (rule scan_digits_length)
  assume "scan_unsigned cs = Some (n, cs')"
  then show ?thesis
    using d s [of 0 "dropWhile isspace cs"] s [of 0 "tl (dropWhile isspace cs)"]
    by (auto simp: scan_unsigned_def Let_def split: list.splits if_splits prod.splits)
qed

function tunnel_file_parse :: "nat \<Rightarrow> string \<Rightarrow> (string \<times> 8 word) list \<times> parse_end" where
  "tunnel_file_parse mx [] = ([], End_of_file)"
| "tunnel_file_parse mx (c # cs) =
     (if c = newline then tunnel_file_parse mx cs
      else if c = CHR ''#'' then tunnel_file_parse mx (skip_comment cs)
      else
        let (url, cs2) = read_url mx [c] cs in
        if length url - 1 = 0 \<or> last url \<noteq> CHR '' '' then ([], Bad_url)
        else
          let u = c_string (butlast url) in
          case scan_unsigned cs2 of
            None \<Rightarrow> ([], Bad_age u)
          | Some (age, cs3) \<Rightarrow>
              if age > 255 then ([], Bad_age u)
              else
                (case cs3 of
                   [] \<Rightarrow> ([], Bad_end_of_line u)
                 | d # cs4 \<Rightarrow>
                     if d \<noteq> newline then ([], Bad_end_of_line u)
                     else
                       let (rs, e) = tunnel_file_parse mx cs4
                       in ((u, of_nat age) # rs, e)))"
  by pat_completeness auto
termination
proof (relation "measure (\<lambda>(mx, cs). length cs)")
  show "wf (measure (\<lambda>(mx, cs). length cs))" by simp
next
  fix mx c cs
  show "((mx, cs), (mx, c # cs)) \<in> measure (\<lambda>(mx, cs). length cs)" by simp
next
  fix mx c cs
  show "((mx, skip_comment cs), (mx, c # cs)) \<in> measure (\<lambda>(mx, cs). length cs)"
    using skip_comment_length [of cs] by simp
next
  fix mx c cs x url cs2 u x2 age cs3 d cs4
  assume "(url, cs2) = x" and "x = read_url mx [c] cs" "scan_unsigned cs2 = Some x2"
    and "(age, cs3) = x2" and "cs3 = d # cs4"
  then have "cs2 = snd (read_url mx [c] cs)" and "scan_unsigned cs2 = Some (age, d # cs4)"
    by (auto simp: prod_eq_iff)
  then have "length cs2 \<le> length cs" and "length (d # cs4) \<le> length cs2"
    using read_url_length [of mx "[c]" cs] scan_unsigned_length [of cs2 age "d # cs4"]
    by auto
  then show "((mx, cs4), (mx, c # cs)) \<in> measure (\<lambda>(mx, cs). length cs)"
    by simp
qed

text \<open>Lines 314-317: each pair read becomes a record of the cache.\<close>

fun insert_read :: "platform \<Rightarrow> tunnels_state \<Rightarrow> (string \<times> 8 word) list \<Rightarrow> error + tunnels_state" where
  "insert_read P st [] = Inr st"
| "insert_read P st ((u, a) # rs) =
     (let (tunnel, st1) = tunnel_create P st u a in
      case thread_lock st1 of
        Inl e \<Rightarrow> Inl e
      | Inr st2 \<Rightarrow>
          insert_read P
            (thread_unlock (st2\<lparr>tunnels_cache := tunnel_set_insert (tunnels_cache st2) tunnel\<rparr>))
            rs)"

definition parse_warning :: "parse_end \<Rightarrow> event list" where
  "parse_warning e =
     (case e of
        End_of_file \<Rightarrow> []
      | Bad_url \<Rightarrow> [Warning (''unable to read tunnel URL from file; expected 1 or more URL '' @
                     ''characters followed by a space character'')]
      | Bad_age u \<Rightarrow> [Warning (''unable to read age for tunnel '' @ u)]
      | Bad_end_of_line u \<Rightarrow>
          [Warning (''unable to read tunnel '' @ u @ ''; missing end-of-line character'')])"

definition read_from :: "platform \<Rightarrow> tunnels_state \<Rightarrow> string \<Rightarrow> error + tunnels_state" where
  "read_from P st txt =
     (let (rs, e) = tunnel_file_parse (CKTP_MAX_URL_LENGTH P) txt in
      case insert_read P st rs of
        Inl err \<Rightarrow> Inl err
      | Inr st1 \<Rightarrow> Inr (st1\<lparr>trace := trace st1 @ parse_warning e\<rparr>))"

definition tunnel_file_read :: "platform \<Rightarrow> tunnels_state \<Rightarrow> error + tunnels_state" where
  "tunnel_file_read P st =
     (case files st TUNNELS_FILENAME of
        Some txt \<Rightarrow> read_from P st txt
      | None \<Rightarrow>
          (let st1 = emit (Warning (''unable to open tunnel cache file for reading; '' @
                             ''will use backup tunnel cache file'')) st
           in case files st1 TUNNELS_BAK_FILENAME of
                Some txt \<Rightarrow> read_from P st1 txt
              | None \<Rightarrow>
                  Inr (emit (Warning ''unable to open backup tunnel cache file for reading'')
                         st1)))"

subsection \<open>Opening tunnels\<close>

definition tunnel_ready :: "tunnels_state \<Rightarrow> error + (bool \<times> tunnels_state)" where
  "tunnel_ready st =
     (case thread_lock st of
        Inl e \<Rightarrow> Inl e
      | Inr st1 \<Rightarrow> Inr (tunnels (tunnels_active st1) \<noteq> [], thread_unlock st1))"

definition MAX_INIT_OPEN :: "64 word" where
  "MAX_INIT_OPEN = 8"

definition MAX_RETRIES :: "32 word" where
  "MAX_RETRIES = 3"

text \<open>
  Where a thread sleeps or waits for the driver it holds no lock, and the other
  threads run. What they do to the shared state is a function on the state, given
  from outside; it does not write this thread's trace.
\<close>

definition interfere :: "(tunnels_state \<Rightarrow> tunnels_state) \<Rightarrow> tunnels_state \<Rightarrow> tunnels_state" where
  "interfere f st = (f st)\<lparr>trace := trace st\<rparr>"

text \<open>
  Lines 448-458 of \<open>tunnel_activate_manager\<close>: the scan of the cache. \<open>size_t\<close> is 64
  bits wide. The arguments are \<open>max\<close>, the entries of the cache from index \<open>i\<close> on,
  and \<open>j\<close>.
\<close>

fun open_closed ::
  "64 word \<Rightarrow> addr list \<Rightarrow> 64 word \<Rightarrow> tunnels_state \<Rightarrow> error + (64 word \<times> tunnels_state)"
where
  "open_closed mx [] j st = Inr (j, st)"
| "open_closed mx (p # ps) j st =
     (if \<not> j < mx then Inr (j, st)
      else
        (case heap st p of
           None \<Rightarrow> Inl Bad_pointer
         | Some t \<Rightarrow>
             if t_state t = TUNNEL_STATE_CLOSED
             then open_closed mx ps (j + 1)
                    (emit (Thread_create (Tunnel_activate p))
                       (st\<lparr>heap := (heap st)(p \<mapsto> t\<lparr>t_state := TUNNEL_STATE_OPENING\<rparr>)\<rparr>))
             else open_closed mx ps j st))"

text \<open>
  Lines 445-460: one pass under the lock. The result is \<open>j\<close> and \<open>max\<close>; the random
  number drawn under the lock is given from outside and used by the caller.
\<close>

definition manager_pass :: "tunnels_state \<Rightarrow> error + ((64 word \<times> 64 word) \<times> tunnels_state)" where
  "manager_pass st =
     (case thread_lock st of
        Inl e \<Rightarrow> Inl e
      | Inr st1 \<Rightarrow>
          (let mx = MAX_INIT_OPEN - of_nat (length (tunnels (tunnels_active st1))) + 1
           in case open_closed mx (tunnels (tunnels_cache st1)) 0 st1 of
                Inl e \<Rightarrow> Inl e
              | Inr (j, st2) \<Rightarrow> Inr ((j, mx), thread_unlock st2)))"

text \<open>
  The loop of \<open>tunnel_activate_manager\<close>, lines 442-470. It can run for ever, so it
  takes fuel: the number of passes it may make. \<open>None\<close> means the fuel ran out with
  the loop still running. Pass \<open>k\<close> draws the random number \<open>fst (env k)\<close>, and while the
  thread sleeps after it the other threads do \<open>snd (env k)\<close>.
\<close>

fun tunnel_activate_manager ::
  "platform \<Rightarrow> (nat \<Rightarrow> 64 word \<times> (tunnels_state \<Rightarrow> tunnels_state)) \<Rightarrow> nat \<Rightarrow> nat
     \<Rightarrow> tunnels_state \<Rightarrow> error + tunnels_state option"
where
  "tunnel_activate_manager P env k 0 st = Inr None"
| "tunnel_activate_manager P env k (Suc fuel) st =
     (case manager_pass st of
        Inl e \<Rightarrow> Inl e
      | Inr ((j, mx), st1) \<Rightarrow>
          if j = mx then Inr (Some st1)
          else
            (let stagger = fst (env k);
                 st2 = interfere (snd (env k))
                         (emit (Sleeptime (unat (150 * SECONDS P +
                                  (stagger mod 10000) * MILLISECONDS P))) st1)
             in if of_nat (length (tunnels (tunnels_active st2))) < MAX_INIT_OPEN
                then tunnel_activate_manager P env (Suc k) fuel st2
                else Inr (Some st2)))"

text \<open>
  \<open>tunnel_try_activate\<close>, lines 522-552. Attempt \<open>k\<close> of the loop gets from outside what
  \<open>cktp_open_tunnel\<close> returns, what the other threads do while it runs, and what they
  do during the sleep that follows.
\<close>

record attempt =
  opened :: cktp_tunnel_t
  during_open :: "tunnels_state \<Rightarrow> tunnels_state"
  during_sleep :: "tunnels_state \<Rightarrow> tunnels_state"

lemma word_pred_less: "(x :: 'a::len word) \<noteq> 0 \<Longrightarrow> unat (x - 1) < unat x"
proof -
  assume "x \<noteq> 0"
  then have "unat (x - 1) = unat x - 1" and "0 < unat x"
    by (simp_all add: unat_minus_one unat_gt_0)
  then show ?thesis by simp
qed

function try_activate_loop ::
  "(nat \<Rightarrow> attempt) \<Rightarrow> addr \<Rightarrow> 32 word \<Rightarrow> nat \<Rightarrow> 64 word \<Rightarrow> tunnels_state
     \<Rightarrow> error + (bool \<times> tunnels_state)"
where
  "try_activate_loop env tunnel retries k retry_time_us st =
     (case heap st tunnel of
        None \<Rightarrow> Inl Bad_pointer
      | Some t \<Rightarrow>
          if t_state t \<noteq> TUNNEL_STATE_OPENING then Inr (True, st)
          else
            (let st1 = emit (Log (''attempting to open tunnel '' @ t_url t)) st;
                 st2 = interfere (during_open (env k))
                         (emit (Cktp_open_tunnel (t_url t) (opened (env k))) st1)
             in case heap st2 tunnel of
                  None \<Rightarrow> Inl Bad_pointer
                | Some t2 \<Rightarrow>
                    (let st3 = st2\<lparr>heap := (heap st2)(tunnel \<mapsto> t2\<lparr>t_tunnel := opened (env k)\<rparr>)\<rparr>
                     in if opened (env k) \<noteq> None then Inr (True, st3)
                        else if t_state t2 \<noteq> TUNNEL_STATE_OPENING then Inr (True, st3)
                        else if retries - 1 = 0 then Inr (False, st3)
                        else
                          (let st4 = emit (Log (''unable to open tunnel '' @ t_url t2 @
                                             ''; retrying'')) st3;
                               st5 = interfere (during_sleep (env k))
                                       (emit (Sleeptime (unat retry_time_us)) st4)
                           in try_activate_loop env tunnel (retries - 1) (Suc k)
                                (retry_time_us * 6) st5))))"
  by pat_completeness auto
termination
proof (relation "measure (\<lambda>(env, tunnel, retries, k, retry_time_us, st). unat (retries - 1))")
  show "wf (measure (\<lambda>(env, tunnel, retries, k, retry_time_us, st). unat (retries - 1)))"
    by simp
next
  fix env :: "nat \<Rightarrow> attempt" and tunnel :: addr and retries :: "32 word" and k :: nat
    and retry_time_us :: "64 word" and st st5 :: tunnels_state
  assume "retries - 1 \<noteq> 0"
  then have "unat (retries - 1 - 1) < unat (retries - 1)"
    by (rule word_pred_less)
  then show "((env, tunnel, retries - 1, Suc k, retry_time_us * 6, st5),
              (env, tunnel, retries, k, retry_time_us, st))
             \<in> measure (\<lambda>(env, tunnel, retries, k, retry_time_us, st). unat (retries - 1))"
    by simp
qed

declare try_activate_loop.simps [simp del]

definition tunnel_try_activate ::
  "platform \<Rightarrow> 32 word \<Rightarrow> (nat \<Rightarrow> attempt) \<Rightarrow> tunnels_state \<Rightarrow> addr
     \<Rightarrow> error + (bool \<times> tunnels_state)"
where
  "tunnel_try_activate P random env st tunnel =
     (case thread_lock st of
        Inl e \<Rightarrow> Inl e
      | Inr st1 \<Rightarrow>
          (let stagger = ucast (random mod 1000) * MILLISECONDS P;
               st2 = thread_unlock st1;
               retry_time_us = 10 * SECONDS P + stagger
           in try_activate_loop env tunnel MAX_RETRIES 0 retry_time_us st2))"

text \<open>Lines 483-513 of \<open>tunnel_activate\<close>: what becomes of the record, under the lock.\<close>

definition activate_finish :: "tunnels_state \<Rightarrow> addr \<Rightarrow> bool \<Rightarrow> error + tunnels_state" where
  "activate_finish st tunnel result =
     (case thread_lock st of
        Inl e \<Rightarrow> Inl e
      | Inr st1 \<Rightarrow>
          (case heap st1 tunnel of
             None \<Rightarrow> Inl Bad_pointer
           | Some t \<Rightarrow>
               (case t_state t of
                  TUNNEL_STATE_DELETING \<Rightarrow>
                    (case tunnel_free
                            (st1\<lparr>heap := (heap st1)(tunnel \<mapsto> t\<lparr>t_state := TUNNEL_STATE_OPEN\<rparr>)\<rparr>)
                            (Some tunnel) of
                       Inl e \<Rightarrow> Inl e
                     | Inr st2 \<Rightarrow> Inr (thread_unlock st2))
                | TUNNEL_STATE_CLOSING \<Rightarrow>
                    (let st2 = emit (Cktp_close_tunnel (t_tunnel t)) st1
                     in Inr (thread_unlock
                          (st2\<lparr>heap := (heap st2)
                                 (tunnel \<mapsto> t\<lparr>t_state := TUNNEL_STATE_CLOSED, t_tunnel := None\<rparr>)\<rparr>)))
                | TUNNEL_STATE_OPENING \<Rightarrow>
                    if result
                    then
                      (let st2 = emit (Log (''successfully opened tunnel '' @ t_url t)) st1;
                           st3 = st2\<lparr>heap := (heap st2)
                                   (tunnel \<mapsto> t\<lparr>t_state := TUNNEL_STATE_OPEN,
                                                 t_age := TUNNEL_INIT_AGE\<rparr>)\<rparr>
                       in Inr (thread_unlock
                            (st3\<lparr>tunnels_active :=
                                   tunnel_set_insert (tunnels_active st3) tunnel\<rparr>)))
                    else
                      (let st2 = emit (Log (''unable to open tunnel '' @ t_url t @
                                         ''; giving up'')) st1
                       in Inr (thread_unlock
                            (st2\<lparr>heap := (heap st2)
                                   (tunnel \<mapsto> t\<lparr>t_state := TUNNEL_STATE_DEAD,
                                                 t_age := (if t_age t = 0 then 0
                                                           else t_age t - 1)\<rparr>)\<rparr>)))
                | _ \<Rightarrow> Inl Panic)))"

text \<open>
  \<open>tunnel_activate\<close>, lines 479-517. \<open>waiting\<close> is what the other threads do between the
  return of \<open>tunnel_try_activate\<close> and the moment this thread gets the lock.
\<close>

definition tunnel_activate ::
  "platform \<Rightarrow> 32 word \<Rightarrow> (nat \<Rightarrow> attempt) \<Rightarrow> (tunnels_state \<Rightarrow> tunnels_state) \<Rightarrow> fs_env
     \<Rightarrow> tunnels_state \<Rightarrow> addr \<Rightarrow> error + tunnels_state"
where
  "tunnel_activate P random env waiting F st tunnel =
     (case tunnel_try_activate P random env st tunnel of
        Inl e \<Rightarrow> Inl e
      | Inr (result, st1) \<Rightarrow>
          (case activate_finish (interfere waiting st1) tunnel result of
             Inl e \<Rightarrow> Inl e
           | Inr st2 \<Rightarrow> tunnel_file_write P F st2))"

subsection \<open>Adding and deleting a tunnel\<close>

text \<open>Lines 710-716 of \<open>tunnel_add\<close>, reached with the lock held.\<close>

definition add_open :: "platform \<Rightarrow> fs_env \<Rightarrow> tunnels_state \<Rightarrow> addr \<Rightarrow> string \<Rightarrow> error + tunnels_state" where
  "add_open P F st tunnel u =
     (case heap st tunnel of
        None \<Rightarrow> Inl Bad_pointer
      | Some t \<Rightarrow>
          (let st1 = st\<lparr>heap := (heap st)(tunnel \<mapsto> t\<lparr>t_state := TUNNEL_STATE_OPENING\<rparr>)\<rparr>;
               st2 = thread_unlock st1;
               st3 = emit (Log (''added tunnel '' @ u)) st2;
               st4 = emit (Thread_create (Tunnel_activate tunnel)) st3
           in tunnel_file_write P F st4))"

definition tunnel_add :: "platform \<Rightarrow> fs_env \<Rightarrow> tunnels_state \<Rightarrow> string \<Rightarrow> error + tunnels_state" where
  "tunnel_add P F st u =
     (if \<not> cktp_parse_url P u then Inr st
      else
        (case thread_lock st of
           Inl e \<Rightarrow> Inl e
         | Inr st1 \<Rightarrow>
             (case tunnel_set_lookup st1 (tunnels_cache st1) u of
                Inl e \<Rightarrow> Inl e
              | Inr idx \<Rightarrow>
                  if idx < 0
                  then
                    (let (tunnel, st2) = tunnel_create P st1 u TUNNEL_INIT_AGE;
                         st3 = st2\<lparr>tunnels_cache := tunnel_set_insert (tunnels_cache st2) tunnel\<rparr>
                     in add_open P F st3 tunnel u)
                  else
                    (let tunnel = tunnels (tunnels_cache st1) ! nat idx in
                     case heap st1 tunnel of
                       None \<Rightarrow> Inl Bad_pointer
                     | Some t \<Rightarrow>
                         if t_state t = TUNNEL_STATE_OPEN \<or> t_state t = TUNNEL_STATE_OPENING
                         then Inr (emit (Warning (''unable to add tunnel '' @ u @
                                           ''; tunnel is already open or opening''))
                                     (thread_unlock st1))
                         else add_open P F st1 tunnel u))))"

definition tunnel_delete :: "platform \<Rightarrow> fs_env \<Rightarrow> tunnels_state \<Rightarrow> string \<Rightarrow> error + tunnels_state" where
  "tunnel_delete P F st u =
     (case thread_lock st of
        Inl e \<Rightarrow> Inl e
      | Inr st1 \<Rightarrow>
          (case tunnel_set_delete st1 (tunnels_active st1) u of
             Inl e \<Rightarrow> Inl e
           | Inr (None, _) \<Rightarrow>
               (case tunnel_set_delete st1 (tunnels_cache st1) u of
                  Inl e \<Rightarrow> Inl e
                | Inr (None, _) \<Rightarrow>
                    tunnel_file_write P F
                      (thread_unlock
                         (emit (Warning (''unable to delete tunnel '' @ u @
                                  ''; tunnel does not exist'')) st1))
                | Inr (Some tunnel, cache') \<Rightarrow>
                    (case tunnel_free (st1\<lparr>tunnels_cache := cache'\<rparr>) (Some tunnel) of
                       Inl e \<Rightarrow> Inl e
                     | Inr st2 \<Rightarrow>
                         tunnel_file_write P F
                           (thread_unlock (emit (Log (''deleted tunnel '' @ u)) st2))))
           | Inr (Some tunnel, active') \<Rightarrow>
               (let st2 = st1\<lparr>tunnels_active := active'\<rparr> in
                case heap st2 tunnel of
                  None \<Rightarrow> Inl Bad_pointer
                | Some t \<Rightarrow>
                    (case (case t_state t of
                             TUNNEL_STATE_OPENING \<Rightarrow>
                               Inr (st2\<lparr>heap := (heap st2)
                                      (tunnel \<mapsto> t\<lparr>t_state := TUNNEL_STATE_CLOSING\<rparr>)\<rparr>)
                           | TUNNEL_STATE_CLOSING \<Rightarrow> Inr st2
                           | TUNNEL_STATE_OPEN \<Rightarrow>
                               (let st3 = emit (Cktp_close_tunnel (t_tunnel t)) st2
                                in Inr (st3\<lparr>heap := (heap st3)
                                          (tunnel \<mapsto> t\<lparr>t_tunnel := None,
                                                        t_state := TUNNEL_STATE_CLOSED\<rparr>)\<rparr>))
                           | _ \<Rightarrow> Inl Panic) of
                       Inl e \<Rightarrow> Inl e
                     | Inr st4 \<Rightarrow>
                         tunnel_file_write P F
                           (thread_unlock (emit (Log (''deactivated tunnel '' @ u)) st4))))))"

subsection \<open>Notions used in the statements\<close>

text \<open>
  What the proofs need of the rounding: it is monotone, it leaves 0 and 1 alone, and
  rounding twice is rounding once. IEEE 754 rounding to nearest is such a function, and
  so is the identity.
\<close>

definition rounding_ok :: "(real \<Rightarrow> real) \<Rightarrow> bool" where
  "rounding_ok r = (mono r \<and> r 0 = 0 \<and> r 1 = 1 \<and> (\<forall>x. r (r x) = r x))"

text \<open>Every record of the store has its weight between the literal 0.005 and 1.\<close>

definition weights_ok :: "platform \<Rightarrow> tunnels_state \<Rightarrow> bool" where
  "weights_ok P st =
     (\<forall>p t. heap st p = Some t \<longrightarrow> rnd P 0.005 \<le> t_weight t \<and> t_weight t \<le> 1)"

text \<open>A sequence of calls of the selector, each given its hash and repeat count.\<close>

fun select_calls ::
  "platform \<Rightarrow> tunnels_state \<Rightarrow> (64 word \<times> 32 word) list \<Rightarrow> error + tunnels_state"
where
  "select_calls P st [] = Inr st"
| "select_calls P st ((h, r) # cs) =
     (case tunnel_get P st h r of
        Inl e \<Rightarrow> Inl e
      | Inr (_, st') \<Rightarrow> select_calls P st' cs)"

text \<open>
  A url that the cache file can hold: it is not empty, fits the buffer, has no space and
  no NUL in it, and does not begin with a newline or a \<open>#\<close>.
\<close>

definition url_ok :: "platform \<Rightarrow> string \<Rightarrow> bool" where
  "url_ok P u =
     (u \<noteq> [] \<and> length u \<le> CKTP_MAX_URL_LENGTH P \<and> CHR '' '' \<notin> set u \<and> CHR 0x00 \<notin> set u \<and>
      hd u \<noteq> newline \<and> hd u \<noteq> CHR ''#'')"

text \<open>
  What \<open>cktp_open_tunnel\<close> returned at each call recorded in a trace, and the times
  slept, both in order.
\<close>

fun open_results :: "event list \<Rightarrow> cktp_tunnel_t list" where
  "open_results [] = []"
| "open_results (Cktp_open_tunnel u h # es) = h # open_results es"
| "open_results (e # es) = open_results es"

fun sleep_times :: "event list \<Rightarrow> nat list" where
  "sleep_times [] = []"
| "sleep_times (Sleeptime t # es) = t # sleep_times es"
| "sleep_times (e # es) = sleep_times es"

text \<open>
  What a run of the retry loop that is entered with \<open>r\<close> attempts left and the sleep time
  \<open>t\<close> has done when it returns \<open>result\<close>: \<open>new\<close> is what it added to the trace.
\<close>

definition attempts ::
  "nat \<Rightarrow> 64 word \<Rightarrow> tunnels_state \<Rightarrow> addr \<Rightarrow> bool \<Rightarrow> tunnels_state \<Rightarrow> bool" where
  "attempts r t st p result st' =
     (\<exists>new t'. trace st' = trace st @ new \<and> heap st' p = Some t' \<and>
        length (open_results new) \<le> r \<and>
        list_all (\<lambda>h. h = None) (butlast (open_results new)) \<and>
        (\<exists>n<r. sleep_times new = take n [unat t, unat (t * 6)]) \<and>
        (result \<longleftrightarrow> (open_results new \<noteq> [] \<and> last (open_results new) \<noteq> None) \<or>
                     t_state t' \<noteq> TUNNEL_STATE_OPENING) \<and>
        (\<not> result \<longrightarrow> open_results new = replicate r None \<and>
           sleep_times new = take (r - 1) [unat t, unat (t * 6)]) \<and>
        (open_results new \<noteq> [] \<and> last (open_results new) \<noteq> None \<longrightarrow>
           t_tunnel t' = last (open_results new)))"

subsection \<open>Example states\<close>

text \<open>A platform with exact arithmetic and times in microseconds.\<close>

definition exact :: platform where
  "exact = \<lparr>CKTP_MAX_URL_LENGTH = 1024, PROGRAM_NAME_LONG = ''ReQrypt'',
      SECONDS = 1000000, MILLISECONDS = 1000,
      cktp_parse_url = (\<lambda>u. u \<noteq> []), cktp_tunnel_get_mtu = (\<lambda>h m. m), rnd = (\<lambda>x. x),
      unwritten = (\<lambda>i. None)\<rparr>"

definition tunnel_A :: tunnel_s where
  "tunnel_A = \<lparr>t_tunnel = Some 0, t_state = TUNNEL_STATE_OPEN, t_reconnect = False, t_id = 0,
      t_age = 16, t_weight = 1, t_url = ''udp://a''\<rparr>"

definition tunnel_B :: tunnel_s where
  "tunnel_B = \<lparr>t_tunnel = Some 1, t_state = TUNNEL_STATE_OPEN, t_reconnect = False, t_id = 1,
      t_age = 16, t_weight = 1, t_url = ''udp://b''\<rparr>"

text \<open>The state of the module when the process starts.\<close>

definition start :: tunnels_state where
  "start = \<lparr>tunnels_lock = False, heap = Map.empty, brk = 0, next_id = 0,
     tunnels_cache = TUNNEL_SET_INIT, tunnels_active = TUNNEL_SET_INIT,
     tunnel_history = (\<lambda>_. \<lparr>h_hash = 0, h_id = 0\<rparr>), files = Map.empty, trace = []\<rparr>"

definition one_open :: tunnels_state where
  "one_open = start\<lparr>heap := [0 \<mapsto> tunnel_A], brk := 1, next_id := 1,
     tunnels_cache := \<lparr>tunnels = [0], set_size = 16, spare = replicate 15 Unwritten\<rparr>,
     tunnels_active := \<lparr>tunnels = [0], set_size = 16,
                          spare = replicate 15 Unwritten\<rparr>\<rparr>"

definition two_open :: tunnels_state where
  "two_open = start\<lparr>heap := [0 \<mapsto> tunnel_A, 1 \<mapsto> tunnel_B], brk := 2, next_id := 2,
     tunnels_cache := \<lparr>tunnels = [0, 1], set_size = 16,
                         spare = replicate 14 Unwritten\<rparr>,
     tunnels_active := \<lparr>tunnels = [0, 1], set_size = 16,
                          spare = replicate 14 Unwritten\<rparr>\<rparr>"

text \<open>
  The state \<open>two_open\<close> after \<open>tunnel_delete\<close> of the second tunnel, but for the trace and
  the files: the tunnel is closed and still in the cache, and entry 1 of the array of the
  active set still holds its pointer.
\<close>

definition one_left :: tunnels_state where
  "one_left = start\<lparr>
     heap := [0 \<mapsto> tunnel_A, 1 \<mapsto> tunnel_B\<lparr>t_tunnel := None, t_state := TUNNEL_STATE_CLOSED\<rparr>],
     brk := 2, next_id := 2,
     tunnels_cache := \<lparr>tunnels = [0, 1], set_size = 16,
                         spare = replicate 14 Unwritten\<rparr>,
     tunnels_active := \<lparr>tunnels = [0], set_size = 16,
                          spare = Holds 1 # replicate 14 Unwritten\<rparr>\<rparr>"

text \<open>A closed tunnel, and a state with ten active tunnels and two closed ones.\<close>

definition tunnel_C :: tunnel_s where
  "tunnel_C = \<lparr>t_tunnel = None, t_state = TUNNEL_STATE_CLOSED, t_reconnect = False, t_id = 10,
      t_age = 16, t_weight = 1, t_url = ''udp://c''\<rparr>"

definition crowded :: tunnels_state where
  "crowded = start\<lparr>heap := (\<lambda>p. if p < 10 then Some tunnel_A else if p < 12 then Some tunnel_C else None),
     brk := 12, next_id := 12,
     tunnels_cache := \<lparr>tunnels = [0, 1, 2, 3, 4, 5, 6, 7, 8, 9, 10, 11], set_size = 16,
                         spare = replicate 4 Unwritten\<rparr>,
     tunnels_active := \<lparr>tunnels = [0, 1, 2, 3, 4, 5, 6, 7, 8, 9], set_size = 16,
                          spare = replicate 6 Unwritten\<rparr>\<rparr>"

text \<open>A tunnel that is being opened, with age 0, and a state that holds just this one.\<close>

definition tunnel_O :: tunnel_s where
  "tunnel_O = \<lparr>t_tunnel = None, t_state = TUNNEL_STATE_OPENING, t_reconnect = False, t_id = 0,
      t_age = 0, t_weight = 1, t_url = ''udp://c''\<rparr>"

definition one_opening :: tunnels_state where
  "one_opening = start\<lparr>heap := [0 \<mapsto> tunnel_O], brk := 1, next_id := 1,
     tunnels_cache := \<lparr>tunnels = [0], set_size = 16,
                         spare = replicate 15 Unwritten\<rparr>\<rparr>"

text \<open>A driver that opens the tunnel at the second attempt, with no other thread active.\<close>

definition second_try :: "nat \<Rightarrow> attempt" where
  "second_try k = \<lparr>opened = (if k = 1 then Some 7 else None),
                   during_open = (\<lambda>s. s), during_sleep = (\<lambda>s. s)\<rparr>"

text \<open>A driver that reports the MTU 0, and file systems that can and cannot be written.\<close>

definition no_mtu :: platform where
  "no_mtu = exact\<lparr>cktp_tunnel_get_mtu := (\<lambda>h m. 0)\<rparr>"

definition read_only :: fs_env where
  "read_only = \<lparr>can_backup = False, can_open_tmp = False, can_install = False\<rparr>"

definition writable :: fs_env where
  "writable = \<lparr>can_backup = True, can_open_tmp = True, can_install = True\<rparr>"

text \<open>
  A cache with a record of age 0 between two others, and one with a closed tunnel only.
\<close>

definition tunnel_D :: tunnel_s where
  "tunnel_D = \<lparr>t_tunnel = None, t_state = TUNNEL_STATE_DEAD, t_reconnect = False, t_id = 2,
      t_age = 0, t_weight = 1, t_url = ''udp://d''\<rparr>"

definition three_cached :: tunnels_state where
  "three_cached = start\<lparr>heap := [0 \<mapsto> tunnel_A, 1 \<mapsto> tunnel_D, 2 \<mapsto> tunnel_B],
     brk := 3, next_id := 3,
     tunnels_cache := \<lparr>tunnels = [0, 1, 2], set_size = 16,
                         spare = replicate 13 Unwritten\<rparr>,
     tunnels_active := \<lparr>tunnels = [0, 2], set_size = 16,
                          spare = replicate 14 Unwritten\<rparr>\<rparr>"

definition one_closed :: tunnels_state where
  "one_closed = start\<lparr>heap := [0 \<mapsto> tunnel_C], brk := 1, next_id := 11,
     tunnels_cache := \<lparr>tunnels = [0], set_size = 16,
                         spare = replicate 15 Unwritten\<rparr>\<rparr>"

text \<open>
  A cache file whose first line begins with a NUL, and the record \<open>tunnel_file_read\<close>
  makes of that line: its url is empty.
\<close>

definition damaged_file :: string where
  "damaged_file = [CHR 0x00, CHR ''x'', CHR '' '', CHR ''5'', newline] @ ''udp://b 7'' @ [newline]"

definition nameless :: tunnel_s where
  "nameless = \<lparr>t_tunnel = None, t_state = TUNNEL_STATE_CLOSED, t_reconnect = False, t_id = 0,
      t_age = 5, t_weight = 1, t_url = []\<rparr>"

lemmas example_defs =
  exact_def tunnel_A_def tunnel_B_def start_def one_open_def two_open_def TUNNEL_SET_INIT_def
  UINT32_MAX_def TUNNEL_HISTORY_SIZE_def

section \<open>Properties\<close>

subsection \<open>The selector\<close>

lemma those_nth: "those xs = Some ys \<Longrightarrow> i < length xs \<Longrightarrow> xs ! i = Some (ys ! i)"
proof (induction xs arbitrary: ys i)
  case Nil then show ?case by simp
next
  case (Cons x xs)
  then show ?case by (cases i) (auto split: option.splits)
qed

lemma those_length: "those xs = Some ys \<Longrightarrow> length ys = length xs"
  by (induction xs arbitrary: ys) (auto split: option.splits)

lemma deref_all_nth:
  "deref_all st ps = Some ts \<Longrightarrow> i < length ps \<Longrightarrow> heap st (ps ! i) = Some (ts ! i)"
  unfolding deref_all_def using those_nth [of "map (heap st) ps" ts i] by simp

lemma deref_all_length: "deref_all st ps = Some ts \<Longrightarrow> length ts = length ps"
  unfolding deref_all_def using those_length [of "map (heap st) ps" ts] by simp

lemma find_id_bound: "find_id ts hid k = Some i \<Longrightarrow> k \<le> i \<and> i < k + length ts"
  by (induction ts arbitrary: k) (fastforce split: if_splits)+

text \<open>What the punishing path and the last lines of the selector do to the store.\<close>

lemma punish_history_cases:
  assumes ts: "deref_all st (tunnels (tunnels_active st)) = Some ts"
    and ph: "punish_history P st ts k hh = (bad, st1)"
  shows "(bad = None \<and> st1 = st) \<or>
         (\<exists>b t. bad = Some b \<and> heap st b = Some t \<and>
                 st1 = st\<lparr>heap := (heap st)(b \<mapsto> punish P t)\<rparr>)"
proof (cases "h_hash (tunnel_history st k) = hh")
  case False
  then show ?thesis using ph by (simp add: punish_history_def)
next
  case True
  show ?thesis
  proof (cases "find_id ts (h_id (tunnel_history st k)) 0")
    case None
    then show ?thesis using ph True by (simp add: punish_history_def)
  next
    case (Some i)
    then have "i < length (tunnels (tunnels_active st))"
      using find_id_bound deref_all_length [OF ts] by fastforce
    then have "heap st (tunnels (tunnels_active st) ! i) = Some (ts ! i)"
      using deref_all_nth [OF ts] by simp
    then show ?thesis
      using Some True ph by (auto simp: punish_history_def Let_def)
  qed
qed

lemma assume_success_cases:
  assumes "assume_success P st1 q k hh = Inr (res, st')"
  shows "\<exists>p t. q = Some p \<and> res = Some p \<and> heap st1 p = Some t \<and>
               heap st' = (heap st1)(p \<mapsto> reward P t)"
  using assms by (auto simp: assume_success_def Let_def split: option.splits)

lemma tunnel_get_cases:
  assumes g: "tunnel_get P st hash repeat = Inr (res, st')"
    and a: "tunnels (tunnels_active st) \<noteq> []"
  shows "\<exists>bad st1 p t.
           ((bad = None \<and> st1 = st) \<or>
            (\<exists>b t. bad = Some b \<and> heap st b = Some t \<and>
                    st1 = st\<lparr>heap := (heap st)(b \<mapsto> punish P t)\<rparr>)) \<and>
           res = Some p \<and> heap st1 p = Some t \<and> heap st' = (heap st1)(p \<mapsto> reward P t)"
proof -
  from g a obtain ts where ts: "deref_all st (tunnels (tunnels_active st)) = Some ts"
    by (auto simp: tunnel_get_def Let_def split: option.splits)
  define k where "k = unat (hash mod TUNNEL_HISTORY_SIZE)"
  define hh where "hh = (ucast (hash XOR drop_bit 32 hash) :: 32 word)"
  obtain bad st1 where b: "(if repeat \<noteq> 0 then punish_history P st ts k hh else (None, st)) = (bad, st1)"
    by (cases "if repeat \<noteq> 0 then punish_history P st ts k hh else (None, st)") blast
  have c: "(bad = None \<and> st1 = st) \<or>
         (\<exists>b t. bad = Some b \<and> heap st b = Some t \<and>
                 st1 = st\<lparr>heap := (heap st)(b \<mapsto> punish P t)\<rparr>)"
    using b punish_history_cases [OF ts, of P k hh bad st1] by (auto split: if_splits)
  from g a ts b obtain q where "assume_success P st1 q k hh = Inr (res, st')"
    unfolding tunnel_get_def Let_def k_def hh_def by (auto split: if_splits)
  then obtain p t where "res = Some p" "heap st1 p = Some t"
      "heap st' = (heap st1)(p \<mapsto> reward P t)"
    using assume_success_cases by blast
  then show ?thesis using c by blast
qed

lemma tunnel_get_effect:
  assumes g: "tunnel_get P st hash repeat = Inr (Some p, st')"
  shows "(\<exists>t. heap st p = Some t \<and>
            (heap st' p = Some (reward P t) \<or> heap st' p = Some (reward P (punish P t)))) \<and>
         (\<forall>q. q \<noteq> p \<longrightarrow> heap st' q = heap st q \<or>
            (\<exists>t. heap st q = Some t \<and> heap st' q = Some (punish P t)))"
proof -
  have a: "tunnels (tunnels_active st) \<noteq> []"
    using g by (auto simp: tunnel_get_def)
  from tunnel_get_cases [OF g a] obtain bad st1 t where
    c: "(bad = None \<and> st1 = st) \<or>
        (\<exists>b t. bad = Some b \<and> heap st b = Some t \<and>
                st1 = st\<lparr>heap := (heap st)(b \<mapsto> punish P t)\<rparr>)"
    and h: "heap st1 p = Some t" "heap st' = (heap st1)(p \<mapsto> reward P t)"
    by blast
  from c show ?thesis
  proof
    assume "bad = None \<and> st1 = st"
    then show ?thesis using h by simp
  next
    assume "\<exists>b t. bad = Some b \<and> heap st b = Some t \<and>
                st1 = st\<lparr>heap := (heap st)(b \<mapsto> punish P t)\<rparr>"
    then obtain b tb where "heap st b = Some tb" "st1 = st\<lparr>heap := (heap st)(b \<mapsto> punish P tb)\<rparr>"
      by blast
    then show ?thesis using h by (cases "b = p") auto
  qed
qed

text \<open>The only failure of the selector is a pointer that is followed and is no record.\<close>

lemma tunnel_get_error: "tunnel_get P st hash repeat = Inl e \<Longrightarrow> e = Bad_pointer"
  unfolding tunnel_get_def Let_def assume_success_def
  by (auto split: if_splits option.splits prod.splits)

text \<open>The weights.\<close>

lemma small_literal_bounds:
  assumes "rounding_ok r"
  shows "0 \<le> r 0.005" and "r 0.005 \<le> 1"
proof -
  have m: "mono r" and z: "r 0 = 0" and o: "r 1 = 1" using assms by (auto simp: rounding_ok_def)
  show "0 \<le> r 0.005" using monoD [OF m, of 0 "0.005"] z by simp
  show "r 0.005 \<le> 1" using monoD [OF m, of "0.005" 1] o by simp
qed

lemma punish_range:
  assumes r: "rounding_ok (rnd P)" and w: "rnd P 0.005 \<le> t_weight t" "t_weight t \<le> 1"
  shows "rnd P 0.005 \<le> t_weight (punish P t) \<and> t_weight (punish P t) \<le> 1"
proof -
  have m: "mono (rnd P)" and o: "rnd P 1 = 1" using r by (auto simp: rounding_ok_def)
  have "0 \<le> t_weight t" using small_literal_bounds(1) [OF r] w by linarith
  then have "t_weight t * 0.75 \<le> 1" using w by simp
  then have "rnd P (t_weight t * 0.75) \<le> 1" using monoD [OF m] o by metis
  then show ?thesis using small_literal_bounds(2) [OF r] by (simp add: punish_def Let_def)
qed

lemma reward_range:
  assumes r: "rounding_ok (rnd P)" and w: "rnd P 0.005 \<le> t_weight t" "t_weight t \<le> 1"
  shows "rnd P 0.005 \<le> t_weight (reward P t) \<and> t_weight (reward P t) \<le> 1"
proof -
  have m: "mono (rnd P)" and z: "rnd P 0 = 0" and i: "rnd P (rnd P 0.005) = rnd P 0.005"
    using r by (auto simp: rounding_ok_def)
  have w0: "0 \<le> t_weight t" using small_literal_bounds(1) [OF r] w by linarith
  have "0 \<le> rnd P 0.15" using monoD [OF m, of 0 "0.15"] z by simp
  then have "0 \<le> rnd P 0.15 * t_weight t" using w0 by simp
  then have "0 \<le> rnd P (rnd P 0.15 * t_weight t)" using monoD [OF m, of 0] z by metis
  then have "rnd P 0.005 \<le> t_weight t + rnd P (rnd P 0.15 * t_weight t)" using w by linarith
  then have "rnd P 0.005 \<le> rnd P (t_weight t + rnd P (rnd P 0.15 * t_weight t))"
    using monoD [OF m] i by metis
  then show ?thesis using small_literal_bounds(2) [OF r] by (simp add: reward_def Let_def)
qed

lemma weights_ok_heap:
  "heap st' = heap st \<Longrightarrow> weights_ok P st' = weights_ok P st"
  by (simp add: weights_ok_def)

lemma weights_ok_upd:
  "weights_ok P st \<Longrightarrow> rnd P 0.005 \<le> t_weight t \<and> t_weight t \<le> 1 \<Longrightarrow>
   heap st' = (heap st)(p \<mapsto> t) \<Longrightarrow> weights_ok P st'"
  by (simp add: weights_ok_def)

lemma tunnel_get_weights_ok:
  assumes r: "rounding_ok (rnd P)" and ok: "weights_ok P st"
    and g: "tunnel_get P st hash repeat = Inr (res, st')"
  shows "weights_ok P st'"
proof (cases "tunnels (tunnels_active st) = []")
  case True
  then show ?thesis using g ok by (simp add: tunnel_get_def)
next
  case False
  from tunnel_get_cases [OF g False] obtain bad st1 p t where
    c: "(bad = None \<and> st1 = st) \<or>
        (\<exists>b t. bad = Some b \<and> heap st b = Some t \<and>
                st1 = st\<lparr>heap := (heap st)(b \<mapsto> punish P t)\<rparr>)"
    and h: "heap st1 p = Some t" "heap st' = (heap st1)(p \<mapsto> reward P t)"
    by blast
  have ok1: "weights_ok P st1"
  proof -
    have "weights_ok P (st\<lparr>heap := (heap st)(b \<mapsto> punish P tb)\<rparr>)" if "heap st b = Some tb" for b tb
    proof -
      have "rnd P 0.005 \<le> t_weight tb \<and> t_weight tb \<le> 1"
        using ok that by (simp add: weights_ok_def)
      then have "rnd P 0.005 \<le> t_weight (punish P tb) \<and> t_weight (punish P tb) \<le> 1"
        using punish_range [OF r] by blast
      then show ?thesis using ok weights_ok_upd [of P st "punish P tb" "st\<lparr>heap := (heap st)(b \<mapsto> punish P tb)\<rparr>" b]
        by simp
    qed
    then show ?thesis using c ok by (elim disjE exE conjE) simp_all
  qed
  have "rnd P 0.005 \<le> t_weight t \<and> t_weight t \<le> 1"
    using ok1 h(1) by (simp add: weights_ok_def)
  then have "rnd P 0.005 \<le> t_weight (reward P t) \<and> t_weight (reward P t) \<le> 1"
    using reward_range [OF r] by blast
  then show ?thesis using weights_ok_upd [OF ok1 _ h(2)] by blast
qed

lemma select_calls_outcome:
  assumes r: "rounding_ok (rnd P)"
  shows "weights_ok P st \<Longrightarrow>
    (case select_calls P st calls of Inl e \<Rightarrow> e = Bad_pointer | Inr st' \<Rightarrow> weights_ok P st')"
proof (induction calls arbitrary: st)
  case Nil
  then show ?case by simp
next
  case (Cons c calls)
  obtain h k where c: "c = (h, k)" by (cases c)
  show ?case
  proof (cases "tunnel_get P st h k")
    case (Inl e)
    then show ?thesis using c tunnel_get_error [OF Inl] by simp
  next
    case (Inr x)
    obtain res st1 where x: "x = (res, st1)" by (cases x)
    have "weights_ok P st1" using tunnel_get_weights_ok [OF r Cons.prems] Inr x by blast
    then show ?thesis using Cons.IH [of st1] Inr x c by simp
  qed
qed

lemma tunnel_create_weights_ok:
  assumes r: "rounding_ok (rnd P)" and ok: "weights_ok P st"
  shows "weights_ok P (snd (tunnel_create P st u a))"
  using ok small_literal_bounds(2) [OF r] by (simp add: tunnel_create_def weights_ok_def Let_def)

text \<open>
  Claim C3. Every weight stays between 0.005 and 1. A record is created with weight 1.
  The punishment is the weight times 0.75, and 0.005 where that is less; the reward is
  the weight plus 0.15 times the weight, and 1 where that is more. A call of the selector
  that returns a tunnel has rewarded the record of that tunnel, after punishing it or
  not, and has left every other record as it was or punished. And whatever calls of the
  selector are made one after the other, either they end with every weight of the store
  in the range, or one of them has followed a pointer that is no record, where the
  embedding stops. The entry past the end of the active set that C1 is about can hold
  such a pointer; where it holds a pointer to a record, that record is rewarded like any
  other. With a rounding, 0.005 is the \<open>double\<close> the literal denotes.
\<close>

theorem weight_stays_in_range:
  assumes "rounding_ok (rnd P)" and "weights_ok P st"
  shows "(\<exists>t. heap (snd (tunnel_create P st u a)) (fst (tunnel_create P st u a)) = Some t
            \<and> t_weight t = 1)
       \<and> weights_ok P (snd (tunnel_create P st u a))
       \<and> (rnd P = (\<lambda>x. x) \<longrightarrow>
            t_weight (punish P t0) = max 0.005 (t_weight t0 * 0.75) \<and>
            t_weight (reward P t0) = min 1 (t_weight t0 * 1.15))
       \<and> (\<forall>hash repeat p st'. tunnel_get P st hash repeat = Inr (Some p, st') \<longrightarrow>
            (\<exists>t. heap st p = Some t \<and>
               (heap st' p = Some (reward P t) \<or> heap st' p = Some (reward P (punish P t)))) \<and>
            (\<forall>q. q \<noteq> p \<longrightarrow> heap st' q = heap st q \<or>
               (\<exists>t. heap st q = Some t \<and> heap st' q = Some (punish P t))))
       \<and> (\<forall>calls. case select_calls P st calls of
                      Inl e \<Rightarrow> e = Bad_pointer
                    | Inr st' \<Rightarrow> weights_ok P st')"
proof -
  have a: "\<exists>t. heap (snd (tunnel_create P st u a)) (fst (tunnel_create P st u a)) = Some t
            \<and> t_weight t = 1"
    by (simp add: tunnel_create_def Let_def)
  have b: "weights_ok P (snd (tunnel_create P st u a))"
    using tunnel_create_weights_ok [OF assms] .
  have c: "rnd P = (\<lambda>x. x) \<longrightarrow>
            t_weight (punish P t0) = max 0.005 (t_weight t0 * 0.75) \<and>
            t_weight (reward P t0) = min 1 (t_weight t0 * 1.15)"
    by (auto simp: punish_def reward_def Let_def max_def min_def)
  have d: "\<forall>hash repeat p st'. tunnel_get P st hash repeat = Inr (Some p, st') \<longrightarrow>
            (\<exists>t. heap st p = Some t \<and>
               (heap st' p = Some (reward P t) \<or> heap st' p = Some (reward P (punish P t)))) \<and>
            (\<forall>q. q \<noteq> p \<longrightarrow> heap st' q = heap st q \<or>
               (\<exists>t. heap st q = Some t \<and> heap st' q = Some (punish P t)))"
    by (intro allI impI) (rule tunnel_get_effect)
  have e: "\<forall>calls. case select_calls P st calls of
                      Inl e \<Rightarrow> e = Bad_pointer
                    | Inr st' \<Rightarrow> weights_ok P st'"
    by (intro allI) (rule select_calls_outcome [OF assms])
  show ?thesis by (rule conjI [OF a conjI [OF b conjI [OF c conjI [OF d e]]]])
qed

theorem weight_stays_in_range_witness:
  "rounding_ok (rnd exact) \<and> weights_ok exact two_open \<and>
   (\<exists>st'. select_calls exact two_open [(0, 0), (0, 1), (0, 0)] = Inr st' \<and> weights_ok exact st'
      \<and> map_option t_weight (heap st' 0) = Some 0.8625
      \<and> map_option t_weight (heap st' 1) = Some 1)"
proof -
  have r: "rounding_ok (rnd exact)"
    by (simp add: rounding_ok_def exact_def mono_def)
  have ok: "weights_ok exact two_open"
    by (simp add: weights_ok_def example_defs)
  have run: "\<exists>st'. select_calls exact two_open [(0, 0), (0, 1), (0, 0)] = Inr st'
     \<and> map_option t_weight (heap st' 0) = Some 0.8625
     \<and> map_option t_weight (heap st' 1) = Some 1"
    by (simp add: tunnel_get_def tunnel_get_idx_def tunnel_set_read_def punish_history_def
        assume_success_def punish_def reward_def deref_all_def Let_def example_defs)
  then obtain st' where s: "select_calls exact two_open [(0, 0), (0, 1), (0, 0)] = Inr st'"
    and w: "map_option t_weight (heap st' 0) = Some 0.8625"
      "map_option t_weight (heap st' 1) = Some 1" by blast
  have "case select_calls exact two_open [(0, 0), (0, 1), (0, 0)] of
          Inl e \<Rightarrow> e = Bad_pointer | Inr st' \<Rightarrow> weights_ok exact st'"
    using weight_stays_in_range [OF r ok] by blast
  then have "weights_ok exact st'" using s by simp
  then show ?thesis using r ok s w by blast
qed

text \<open>
  The walk in exact arithmetic. \<open>pick\<close> is the total weight times
  \<open>weight_hash / UINT32_MAX\<close>, a factor between 0 and 1, both included. Where the factor
  is below 1 the walk stops below the length; where it is 1, that is where the weight
  hash is \<open>UINT32_MAX\<close>, the walk runs to the length, whatever the weights are, and
  the read that follows is past the end of the active set.
\<close>

lemma sum_weights_exact: "sum_weights (\<lambda>x. x) acc ws = acc + sum_list ws"
  by (induction ws arbitrary: acc) auto

lemma walk_exact_stops:
  "0 \<le> pick \<Longrightarrow> pick < sum_list ws \<Longrightarrow> fst (walk (\<lambda>x. x) ws idx pick) < idx + length ws"
proof (induction ws arbitrary: idx pick)
  case Nil
  then show ?case by simp
next
  case (Cons w ws)
  show ?case
  proof (cases "w \<le> pick")
    case False
    then show ?thesis by simp
  next
    case True
    then have "0 \<le> pick - w" and "pick - w < sum_list ws" using Cons.prems by simp_all
    then have "fst (walk (\<lambda>x. x) ws (Suc idx) (pick - w)) < Suc idx + length ws"
      by (rule Cons.IH)
    then show ?thesis using True by simp
  qed
qed

lemma walk_exact_past_the_end:
  "\<forall>w\<in>set ws. 0 \<le> w \<Longrightarrow> sum_list ws \<le> pick \<Longrightarrow>
   fst (walk (\<lambda>x. x) ws idx pick) = idx + length ws"
proof (induction ws arbitrary: idx pick)
  case Nil
  then show ?case by simp
next
  case (Cons w ws)
  have "0 \<le> sum_list ws" using Cons.prems(1) by (simp add: sum_list_nonneg)
  then have "w \<le> pick" using Cons.prems(2) by simp
  moreover have "sum_list ws \<le> pick - w" using Cons.prems(2) by simp
  ultimately show ?case using Cons.IH [of "pick - w" "Suc idx"] Cons.prems(1) by simp
qed

lemma tunnel_get_idx_exact_past_the_end:
  assumes "rnd P = (\<lambda>x. x)" and "\<forall>t\<in>set ts. 0 \<le> t_weight t"
    and "ucast (hash XOR drop_bit 32 hash) * (repeat + 1) = (0xFFFFFFFF :: 32 word)"
  shows "tunnel_get_idx P ts hash repeat = length ts"
proof -
  let ?ws = "map t_weight ts"
  have "fst (walk (\<lambda>x. x) ?ws 0 (sum_list ?ws)) = 0 + length ?ws"
    using assms(2) by (intro walk_exact_past_the_end) auto
  then show ?thesis
    using assms(1,3)
    by (simp add: tunnel_get_idx_def Let_def sum_weights_exact UINT32_MAX_def)
qed

lemma tunnel_get_idx_exact_in_bounds:
  assumes "rnd P = (\<lambda>x. x)" and ne: "ts \<noteq> []"
    and "\<forall>t\<in>set ts. 0 < t_weight t"
    and "ucast (hash XOR drop_bit 32 hash) * (repeat + 1) \<noteq> (0xFFFFFFFF :: 32 word)"
  shows "tunnel_get_idx P ts hash repeat < length ts"
proof -
  let ?ws = "map t_weight ts"
  let ?wh = "ucast (hash XOR drop_bit 32 hash) * (repeat + 1) :: 32 word"
  let ?pick = "real (unat ?wh) / UINT32_MAX * sum_list ?ws"
  have nonneg: "0 \<le> sum_list (map t_weight xs)" if "\<forall>t\<in>set xs. 0 < t_weight t" for xs
    using that by (intro sum_list_nonneg) (auto simp: less_imp_le)
  have pos: "0 < sum_list ?ws"
  proof (cases ts)
    case Nil
    then show ?thesis using ne by simp
  next
    case (Cons a list)
    then have "0 < t_weight a" and "0 \<le> sum_list (map t_weight list)"
      using assms(3) nonneg [of list] by simp_all
    then show ?thesis using Cons by (simp add: add_pos_nonneg)
  qed
  have "unat ?wh \<noteq> unat (0xFFFFFFFF :: 32 word)" using assms(4) by (simp add: word_unat_eq_iff)
  moreover have "unat ?wh < 2 ^ 32" using unsigned_less [of ?wh, where ?'a = nat] by simp
  ultimately have "unat ?wh < 4294967295" by simp
  then have "real (unat ?wh) < real 4294967295" by (simp only: of_nat_less_iff)
  then have "real (unat ?wh) / UINT32_MAX < 1" by (simp add: UINT32_MAX_def)
  then have "real (unat ?wh) / UINT32_MAX * sum_list ?ws < 1 * sum_list ?ws"
    using pos by (rule mult_strict_right_mono)
  then have lt: "?pick < sum_list ?ws" by (simp only: mult_1)
  have "0 \<le> real (unat ?wh) / UINT32_MAX" unfolding UINT32_MAX_def
    by (rule divide_nonneg_pos, rule of_nat_0_le_iff) simp
  then have ge: "0 \<le> ?pick" using pos by (intro mult_nonneg_nonneg) simp_all
  have "fst (walk (\<lambda>x. x) ?ws 0 ?pick) < 0 + length ?ws"
    using walk_exact_stops [OF ge lt] .
  then show ?thesis
    using assms(1) by (simp add: tunnel_get_idx_def Let_def sum_weights_exact)
qed

text \<open>
  The first insertion into a set allocates 16 entries and writes the first; whatever is
  deleted from a set, the entry at the new length keeps the pointer that was the last.
\<close>

lemma first_insert: "tunnel_set_insert TUNNEL_SET_INIT 0 = tunnels_active one_open"
  by (simp add: tunnel_set_insert_def TUNNEL_SET_INIT_SIZE_def Let_def example_defs)

lemma delete_leaves_pointer:
  assumes "tunnel_set_delete st s u = Inr (Some q, s')"
  shows "tunnel_set_read P s' (length (tunnels s')) = Some (last (tunnels s))"
  using assms
  by (auto simp: tunnel_set_delete_def tunnel_set_read_def split: sum.splits option.splits)

text \<open>
  Claim C1 says that the walk always stops at an index below the length of the active
  set, also when the weight hash is \<open>UINT32_MAX\<close>. The code does not: with one active
  tunnel of weight 1, hash \<open>0xFFFFFFFF\<close> and repeat 0, the weight hash is \<open>UINT32_MAX\<close>,
  \<open>pick\<close> is the total weight 1, the test \<^verbatim>\<open>pick >= weight\<close> holds at index 0, and the
  walk ends with \<open>idx = 1\<close>, the length. Line 633 then reads the entry 1 of the array,
  which the module has never written, and the selector goes on with what the memory
  holds there: where that is \<open>NULL\<close>, line 669 follows a null pointer. Every number
  involved (0, 1, 4294967295) is a \<open>double\<close>, so a rounding that leaves 1 alone does not
  change this.
\<close>

theorem tunnel_get_walks_past_the_end:
  "rnd P 1 = 1 \<Longrightarrow>
     deref_all one_open (tunnels (tunnels_active one_open)) = Some [tunnel_A] \<and>
     tunnel_get_idx P [tunnel_A] 0xFFFFFFFF 0 = length (tunnels (tunnels_active one_open)) \<and>
     tunnel_set_read P (tunnels_active one_open) (tunnel_get_idx P [tunnel_A] 0xFFFFFFFF 0) =
       unwritten P 1 \<and>
     tunnel_get P one_open 0xFFFFFFFF 0 =
       assume_success P one_open (unwritten P 1) 1023 0xFFFFFFFF"
  by (simp add: tunnel_get_def tunnel_get_idx_def tunnel_set_read_def example_defs
      deref_all_def Let_def)

theorem tunnel_get_walks_past_the_end_witness:
  "rnd exact 1 = 1 \<and>
   length (tunnels (tunnels_active one_open)) = 1 \<and>
   tunnel_get_idx exact [tunnel_A] 0xFFFFFFFF 0 = 1 \<and>
   tunnel_set_read exact (tunnels_active one_open) 1 = None \<and>
   tunnel_get exact one_open 0xFFFFFFFF 0 = Inl Bad_pointer"
proof -
  have h: "rnd exact 1 = 1" by (simp add: exact_def)
  have l: "length (tunnels (tunnels_active one_open)) = 1" by (simp add: one_open_def)
  have u: "unwritten exact 1 = None" by (simp add: exact_def)
  have a: "assume_success exact one_open None 1023 0xFFFFFFFF = Inl Bad_pointer"
    by (simp add: assume_success_def)
  note T = tunnel_get_walks_past_the_end [OF h]
  have i: "tunnel_get_idx exact [tunnel_A] 0xFFFFFFFF 0 = 1"
    using T [THEN conjunct2, THEN conjunct1] l by simp
  have r: "tunnel_set_read exact (tunnels_active one_open)
              (tunnel_get_idx exact [tunnel_A] 0xFFFFFFFF 0) = unwritten exact 1"
    using T [THEN conjunct2, THEN conjunct2, THEN conjunct1] .
  have g: "tunnel_get exact one_open 0xFFFFFFFF 0 =
              assume_success exact one_open (unwritten exact 1) 1023 0xFFFFFFFF"
    using T [THEN conjunct2, THEN conjunct2, THEN conjunct2] .
  show ?thesis using h l i r [unfolded i] g u a by simp
qed

text \<open>
  With exactly one active tunnel of positive weight the selector returns that tunnel
  whenever the weight hash is not \<open>UINT32_MAX\<close> (in exact arithmetic), rewarded, and
  punished before that if the history names it for this hash and \<open>repeat\<close> is not 0.
\<close>

lemma tunnel_get_exact_sole_tunnel:
  assumes "rnd P = (\<lambda>x. x)" and act: "tunnels (tunnels_active st) = [a]"
    and h: "heap st a = Some t" and "0 < t_weight t"
    and "ucast (hash XOR drop_bit 32 hash) * (repeat + 1) \<noteq> (0xFFFFFFFF :: 32 word)"
  shows "\<exists>st'. tunnel_get P st hash repeat = Inr (Some a, st') \<and>
           heap st' a =
             Some (if repeat \<noteq> 0 \<and>
                      h_hash (tunnel_history st (unat (hash mod TUNNEL_HISTORY_SIZE))) =
                        ucast (hash XOR drop_bit 32 hash) \<and>
                      h_id (tunnel_history st (unat (hash mod TUNNEL_HISTORY_SIZE))) = t_id t
                   then reward P (punish P t) else reward P t)"
proof -
  have d: "deref_all st [a] = Some [t]" using h by (simp add: deref_all_def)
  have "tunnel_get_idx P [t] hash repeat < length [t]"
    using assms(1,4,5) by (intro tunnel_get_idx_exact_in_bounds) simp_all
  then have i: "tunnel_get_idx P [t] hash repeat = 0" by simp
  show ?thesis
    using act h d i
    by (auto simp: tunnel_get_def Let_def tunnel_set_read_def assume_success_def
        punish_history_def)
qed

text \<open>
  With the weight hash \<open>UINT32_MAX\<close>, \<open>repeat\<close> not 0 and the history naming no active
  tunnel, both pointers that line 659 compares are \<open>NULL\<close> where the entry read is
  \<open>NULL\<close>, and the sole tunnel is returned after all.
\<close>

lemma sole_tunnel_returned_by_wrap:
  "rnd P 1 = 1 \<Longrightarrow> unwritten P 1 = None \<Longrightarrow>
   map_sum id fst (tunnel_get P one_open 0x55555555 2) = Inr (Some 0)"
  by (simp add: tunnel_get_def tunnel_get_idx_def tunnel_set_read_def punish_history_def
      assume_success_def example_defs deref_all_def Let_def)

text \<open>
  Deactivating the second of two active tunnels leaves its pointer in entry 1 of the
  array of the active set, and its record in the cache.
\<close>

lemma one_left_reached:
  "\<exists>st'. tunnel_delete exact writable two_open ''udp://b'' = Inr st' \<and>
         heap st' = heap one_left \<and> tunnels_active st' = tunnels_active one_left \<and>
         tunnels_cache st' = tunnels_cache one_left \<and>
         tunnel_history st' = tunnel_history one_left \<and> \<not> tunnels_lock st'"
  by (simp add: tunnel_delete_def tunnel_set_delete_def tunnel_file_write_def rename_file_def
      thread_lock_def thread_unlock_def emit_def deref_all_def writable_def one_left_def
      Let_def example_defs)

text \<open>
  Claim C10 says that with exactly one active tunnel the selector returns it for every
  hash and repeat count, also on the path that punishes. The code does not, by the
  defect of C1. With hash \<open>0xFFFFFFFF\<close> and repeat 0 the walk ends at index 1; where the
  entry there was never written and the memory holds \<open>NULL\<close>, the selector follows a null
  pointer and returns nothing. Where the entry holds the pointer of a tunnel that was
  deactivated, the selector returns that tunnel, which is not active, for hash
  \<open>0xFFFFFFFF\<close> and repeat 0 and, on the path that punishes, for hash \<open>0x55555555\<close> and
  repeat 2 (\<open>0x55555555 * 3 = UINT32_MAX\<close>).
\<close>

theorem sole_tunnel_not_returned:
  "rnd P 1 = 1 \<Longrightarrow>
     (unwritten P 1 = None \<longrightarrow> tunnel_get P one_open 0xFFFFFFFF 0 = Inl Bad_pointer) \<and>
     tunnels (tunnels_active one_left) = [0] \<and>
     map_sum id fst (tunnel_get P one_left 0xFFFFFFFF 0) = Inr (Some 1) \<and>
     map_sum id fst (tunnel_get P one_left 0x55555555 2) = Inr (Some 1)"
  by (simp add: tunnel_get_def tunnel_get_idx_def tunnel_set_read_def punish_history_def
      assume_success_def one_left_def example_defs deref_all_def Let_def)

theorem sole_tunnel_not_returned_witness:
  "rnd exact 1 = 1 \<and> unwritten exact 1 = None \<and>
   tunnel_get exact one_open 0xFFFFFFFF 0 = Inl Bad_pointer \<and>
   tunnels (tunnels_active one_left) = [0] \<and>
   map_sum id fst (tunnel_get exact one_left 0xFFFFFFFF 0) = Inr (Some 1)"
proof -
  have h: "rnd exact 1 = 1" and u: "unwritten exact 1 = None" by (simp_all add: exact_def)
  show ?thesis using h u sole_tunnel_not_returned [OF h] by simp
qed

subsection \<open>Tunnelling a packet\<close>

text \<open>
  Claim C8. With no active tunnel the selector returns \<open>NULL\<close> for every hash and
  repeat count and leaves the state as it is; \<open>tunnel_packets\<close>, called with the lock
  free, then returns false, and the state it leaves differs from the one it found only
  by the warning in the trace: the lock is free again, and no record, set or history
  entry has changed.
\<close>

theorem no_active_tunnel:
  assumes "tunnels (tunnels_active st) = []" and "\<not> tunnels_lock st"
  shows "tunnel_get P st hash repeat = Inr (None, st) \<and>
     tunnel_packets P st pkt packets hash repeat config_mtu =
       Inr (False, emit (Warning (''unable to tunnel packet (no suitable tunnel is open); '' @
                           ''the packet will be dropped'')) st)"
  using assms
  by (simp add: tunnel_get_def tunnel_packets_def thread_lock_def thread_unlock_def emit_def)

theorem no_active_tunnel_witness:
  "tunnels (tunnels_active start) = [] \<and> \<not> tunnels_lock start \<and>
   tunnel_get exact start 7 1 = Inr (None, start) \<and>
   tunnel_packets exact start \<lparr>tot_len = 20, bytes = []\<rparr> [\<lparr>tot_len = 20, bytes = []\<rparr>] 7 1 1500 =
     Inr (False, emit (Warning (''unable to tunnel packet (no suitable tunnel is open); '' @
                         ''the packet will be dropped'')) start)"
proof -
  have a: "tunnels (tunnels_active start) = []" and l: "\<not> tunnels_lock start"
    by (simp_all add: example_defs)
  show ?thesis
    using a l no_active_tunnel [OF a l, of exact 7 1 "\<lparr>tot_len = 20, bytes = []\<rparr>"
        "[\<lparr>tot_len = 20, bytes = []\<rparr>]" 1500]
    by simp
qed

lemma tunnel_get_lock:
  "tunnel_get P st hash repeat = Inr (res, st') \<Longrightarrow> tunnels_lock st' = tunnels_lock st"
  unfolding tunnel_get_def Let_def punish_history_def assume_success_def
  by (auto split: if_splits option.splits prod.splits)

lemma tunnel_get_Some:
  "tunnel_get P st hash repeat = Inr (res, st') \<Longrightarrow> tunnels (tunnels_active st) \<noteq> [] \<Longrightarrow>
   res \<noteq> None"
  using tunnel_get_cases [of P st hash repeat res st'] by blast

text \<open>
  Claim C2 says that every operation that takes the lock releases it on every path, in
  particular \<open>tunnel_packets\<close> when the driver reports the MTU 0 and \<open>tunnel_file_write\<close>
  when the temporary file cannot be opened. The code does neither: line 576 returns
  false and line 342 returns with the lock still held, whereas the other paths of both
  functions unlock first. So for every state with an active tunnel and a driver that
  reports the MTU 0, \<open>tunnel_packets\<close> returns false with the lock held, and whenever the
  temporary file cannot be opened \<open>tunnel_file_write\<close> returns with the lock held.
\<close>

theorem lock_left_held:
  "(tunnels (tunnels_active st) \<noteq> [] \<and> (\<forall>h m. cktp_tunnel_get_mtu P h m = 0) \<and>
      tunnel_packets P st pkt packets hash repeat config_mtu = Inr (res, st')
        \<longrightarrow> \<not> res \<and> tunnels_lock st')
   \<and> (\<not> can_open_tmp F \<and> tunnel_file_write P F st = Inr st'' \<longrightarrow> tunnels_lock st'')"
proof -
  have "\<not> res \<and> tunnels_lock st'"
    if a: "tunnels (tunnels_active st) \<noteq> []" and m: "\<forall>h m. cktp_tunnel_get_mtu P h m = 0"
      and p: "tunnel_packets P st pkt packets hash repeat config_mtu = Inr (res, st')"
  proof -
    from p obtain st1 where l: "thread_lock st = Inr st1"
      by (auto simp: tunnel_packets_def split: sum.splits)
    then have st1: "st1 = st\<lparr>tunnels_lock := True\<rparr>"
      by (auto simp: thread_lock_def split: if_splits)
    from p l obtain r st2 where g: "tunnel_get P st1 hash repeat = Inr (r, st2)"
      by (auto simp: tunnel_packets_def split: sum.splits)
    have "tunnels_lock st2" using tunnel_get_lock [OF g] st1 by simp
    moreover have "r \<noteq> None" using tunnel_get_Some [OF g] a st1 by simp
    ultimately show ?thesis
      using p l g m by (auto simp: tunnel_packets_def Let_def split: option.splits)
  qed
  moreover have "tunnels_lock st''"
    if "\<not> can_open_tmp F" and "tunnel_file_write P F st = Inr st''"
    using that
    by (auto simp: tunnel_file_write_def thread_lock_def rename_file_def emit_def Let_def
        split: if_splits option.splits prod.splits)
  ultimately show ?thesis by blast
qed

theorem lock_left_held_witness:
  "tunnels (tunnels_active one_open) \<noteq> [] \<and> (\<forall>h m. cktp_tunnel_get_mtu no_mtu h m = 0) \<and>
   \<not> tunnels_lock one_open \<and>
   (\<exists>st'. tunnel_packets no_mtu one_open \<lparr>tot_len = 20, bytes = []\<rparr> [\<lparr>tot_len = 20, bytes = []\<rparr>]
             0 0 1500 = Inr (False, st') \<and> tunnels_lock st') \<and>
   \<not> can_open_tmp read_only \<and>
   (\<exists>st''. tunnel_file_write no_mtu read_only one_open = Inr st'' \<and> tunnels_lock st'')"
proof -
  obtain st' where p: "tunnel_packets no_mtu one_open \<lparr>tot_len = 20, bytes = []\<rparr>
             [\<lparr>tot_len = 20, bytes = []\<rparr>] 0 0 1500 = Inr (False, st')"
    by (simp add: tunnel_packets_def tunnel_get_def tunnel_get_idx_def tunnel_set_read_def
        assume_success_def reward_def thread_lock_def deref_all_def Let_def no_mtu_def
        example_defs)
  obtain st'' where w: "tunnel_file_write no_mtu read_only one_open = Inr st''"
    by (simp add: tunnel_file_write_def thread_lock_def rename_file_def read_only_def
        Let_def no_mtu_def example_defs)
  have a: "tunnels (tunnels_active one_open) \<noteq> []" "\<forall>h m. cktp_tunnel_get_mtu no_mtu h m = 0"
    "\<not> tunnels_lock one_open" "\<not> can_open_tmp read_only"
    by (simp_all add: no_mtu_def read_only_def example_defs)
  show ?thesis
    using p w a lock_left_held [of one_open no_mtu "\<lparr>tot_len = 20, bytes = []\<rparr>"
        "[\<lparr>tot_len = 20, bytes = []\<rparr>]" 0 0 1500 False st' read_only st'']
    by blast
qed

subsection \<open>The cache file\<close>

lemma skip_comment_line:
  "newline \<notin> set xs \<Longrightarrow> CHR 0xFF \<notin> set xs \<Longrightarrow> skip_comment (xs @ newline # rest) = rest"
  by (induction xs) auto

lemma read_url_space:
  "pre \<noteq> [] \<Longrightarrow> last pre \<noteq> CHR '' '' \<Longrightarrow> CHR '' '' \<notin> set u \<Longrightarrow>
   length pre + length u \<le> mx \<Longrightarrow>
   read_url mx pre (u @ CHR '' '' # rest) = (pre @ u @ [CHR '' ''], rest)"
proof (induction u arbitrary: pre)
  case Nil
  then have "length pre - 1 < mx" by (cases pre) auto
  then show ?case using Nil by (cases rest) auto
next
  case (Cons c u)
  have "length pre - 1 < mx" using Cons.prems by (cases pre) auto
  then have "read_url mx pre ((c # u) @ CHR '' '' # rest) =
      read_url mx (pre @ [c]) (u @ CHR '' '' # rest)"
    using Cons.prems by simp
  also have "\<dots> = ((pre @ [c]) @ u @ [CHR '' ''], rest)"
    using Cons.prems by (intro Cons.IH) auto
  finally show ?case by simp
qed

lemma isdigit_digit_char: "d < 10 \<Longrightarrow> isdigit (digit_char d)"
  by (simp add: isdigit_def digit_char_def)

lemma of_char_digit_char: "d < 10 \<Longrightarrow> of_char (digit_char d) - 48 = d"
  by (simp add: digit_char_def)

lemma scan_digits_digits:
  "list_all isdigit ds \<Longrightarrow> (case rest of [] \<Rightarrow> True | c # _ \<Rightarrow> \<not> isdigit c) \<Longrightarrow>
   scan_digits k (ds @ rest) = (foldl (\<lambda>n c. n * 10 + (of_char c - 48)) k ds, rest)"
  by (induction ds arbitrary: k) (auto split: list.splits)

lemma dec_digits: "list_all isdigit (dec n)"
proof (induction n rule: dec.induct)
  case (1 n)
  show ?case
  proof (cases "n < 10")
    case True
    then show ?thesis by (subst dec.simps) (simp add: isdigit_digit_char)
  next
    case False
    then show ?thesis using 1 by (subst dec.simps) (simp add: isdigit_digit_char)
  qed
qed

lemma dec_value: "foldl (\<lambda>n c. n * 10 + (of_char c - 48)) 0 (dec n) = n"
proof (induction n rule: dec.induct)
  case (1 n)
  show ?case
  proof (cases "n < 10")
    case True
    then show ?thesis by (subst dec.simps) (simp add: of_char_digit_char)
  next
    case False
    then show ?thesis using 1 by (subst dec.simps) (simp add: of_char_digit_char)
  qed
qed

lemma dec_not_empty: "dec n \<noteq> []"
  by (subst dec.simps) simp

lemma isdigit_not_space: "isdigit c \<Longrightarrow> \<not> isspace c \<and> c \<noteq> CHR ''+'' \<and> c \<noteq> CHR ''-'' \<and> c \<noteq> newline \<and> c \<noteq> CHR 0xFF"
  by (auto simp: isdigit_def isspace_def newline_def)

lemma not_isdigit_newline: "\<not> isdigit newline"
  by (simp add: isdigit_def newline_def)

lemma scan_unsigned_dec:
  assumes "n < 2 ^ 32"
  shows "scan_unsigned (dec n @ newline # rest) = Some (n, newline # rest)"
proof -
  obtain d ds where d: "dec n = d # ds" using dec_not_empty [of n] by (cases "dec n") auto
  have dig: "list_all isdigit (d # ds)" using dec_digits [of n] d by simp
  then have dd: "isdigit d" by simp
  have sd: "scan_digits 0 ((d # ds) @ newline # rest) = (n, newline # rest)"
    using scan_digits_digits [OF dig, of "newline # rest" 0] dec_value [of n] d not_isdigit_newline
    by simp
  show ?thesis
    using isdigit_not_space [OF dd] dd sd assms
    unfolding scan_unsigned_def d Let_def
    by simp
qed

lemma parse_comment:
  assumes "newline \<notin> set xs" and "CHR 0xFF \<notin> set xs"
  shows "tunnel_file_parse mx (CHR ''#'' # xs @ newline # rest) = tunnel_file_parse mx rest"
  using skip_comment_line [OF assms] by (simp add: newline_def)

lemma parse_record:
  assumes u: "u \<noteq> []" "length u \<le> mx" "CHR '' '' \<notin> set u" "CHR 0x00 \<notin> set u"
      "hd u \<noteq> newline" "hd u \<noteq> CHR ''#''"
    and n: "n \<le> 255"
  shows "tunnel_file_parse mx (u @ CHR '' '' # dec n @ newline # rest) =
     ((u, of_nat n) # fst (tunnel_file_parse mx rest), snd (tunnel_file_parse mx rest))"
proof -
  obtain c u' where cu: "u = c # u'" using u(1) by (cases u) auto
  have c: "c \<noteq> newline" "c \<noteq> CHR ''#''" "c \<noteq> CHR '' ''" using u cu by auto
  have r: "read_url mx [c] (u' @ CHR '' '' # dec n @ newline # rest) =
      ([c] @ u' @ [CHR '' ''], dec n @ newline # rest)"
    using u cu c by (intro read_url_space) auto
  have s: "scan_unsigned (dec n @ newline # rest) = Some (n, newline # rest)"
    using n by (intro scan_unsigned_dec) simp
  have cs: "c_string (c # u') = c # u'"
    using u(4) cu by (auto simp: c_string_def takeWhile_eq_all_conv)
  show ?thesis
    unfolding cu
    using c r s cs n
    by (simp add: Let_def split: prod.splits)
qed

lemma dec_no_newline: "newline \<notin> set (dec n)" "CHR 0xFF \<notin> set (dec n)"
  using dec_digits [of n] isdigit_not_space by (auto simp: list_all_iff)

lemma parse_block:
  assumes "url_ok P (t_url t)" and "t_age t \<noteq> 0"
  shows "tunnel_file_parse (CKTP_MAX_URL_LENGTH P) (cache_block t @ rest) =
     ((t_url t, t_age t) # fst (tunnel_file_parse (CKTP_MAX_URL_LENGTH P) rest),
      snd (tunnel_file_parse (CKTP_MAX_URL_LENGTH P) rest))"
proof -
  let ?mx = "CKTP_MAX_URL_LENGTH P"
  let ?n = "unat (t_age t)"
  let ?line = "t_url t @ CHR '' '' # dec ?n @ newline # newline # rest"
  have n: "?n \<le> 255" using unsigned_less [of "t_age t", where ?'a = nat] by simp
  have "cache_block t @ rest = CHR ''#'' # ('' AGE = '' @ dec ?n) @ newline # ?line"
    by (simp add: cache_block_def)
  moreover have "newline \<notin> set ('' AGE = '' @ dec ?n)" "CHR 0xFF \<notin> set ('' AGE = '' @ dec ?n)"
    using dec_no_newline [of ?n] by (auto simp: newline_def)
  ultimately have "tunnel_file_parse ?mx (cache_block t @ rest) = tunnel_file_parse ?mx ?line"
    using parse_comment by metis
  also have "\<dots> = ((t_url t, of_nat ?n) # fst (tunnel_file_parse ?mx (newline # rest)),
      snd (tunnel_file_parse ?mx (newline # rest)))"
    using assms(1) n by (intro parse_record) (auto simp: url_ok_def)
  finally show ?thesis by simp
qed

lemma parse_blocks:
  assumes "\<forall>t\<in>set ts. url_ok P (t_url t)"
  shows "tunnel_file_parse (CKTP_MAX_URL_LENGTH P)
           (concat (map cache_block (filter (\<lambda>t. t_age t \<noteq> 0) ts))) =
         (map (\<lambda>t. (t_url t, t_age t)) (filter (\<lambda>t. t_age t \<noteq> 0) ts), End_of_file)"
  using assms
proof (induction ts)
  case Nil
  then show ?case by simp
next
  case (Cons t ts)
  show ?case
  proof (cases "t_age t = 0")
    case True
    then show ?thesis using Cons by simp
  next
    case False
    then show ?thesis using Cons parse_block [of P t] by simp
  qed
qed

lemma parse_cache_text:
  assumes "\<forall>t\<in>set ts. url_ok P (t_url t)"
    and "newline \<notin> set (PROGRAM_NAME_LONG P)" and "CHR 0xFF \<notin> set (PROGRAM_NAME_LONG P)"
  shows "tunnel_file_parse (CKTP_MAX_URL_LENGTH P) (cache_text P ts) =
         (map (\<lambda>t. (t_url t, t_age t)) (filter (\<lambda>t. t_age t \<noteq> 0) ts), End_of_file)"
proof -
  let ?mx = "CKTP_MAX_URL_LENGTH P"
  let ?body = "concat (map cache_block (filter (\<lambda>t. t_age t \<noteq> 0) ts))"
  let ?l1 = "'' '' @ PROGRAM_NAME_LONG P @ '' tunnel cache''"
  let ?l2 = "'' AUTOMATICALLY GENERATED, DO NOT EDIT''"
  have "cache_text P ts = CHR ''#'' # ?l1 @ newline # (CHR ''#'' # ?l2 @ newline # newline # ?body)"
    by (simp add: cache_text_def)
  moreover have "newline \<notin> set ?l1" "CHR 0xFF \<notin> set ?l1"
    using assms(2,3) by (auto simp: newline_def)
  ultimately have "tunnel_file_parse ?mx (cache_text P ts) =
      tunnel_file_parse ?mx (CHR ''#'' # ?l2 @ newline # newline # ?body)"
    using parse_comment by metis
  also have "\<dots> = tunnel_file_parse ?mx (newline # ?body)"
    by (intro parse_comment) (auto simp: newline_def)
  also have "\<dots> = tunnel_file_parse ?mx ?body" by simp
  finally show ?thesis using parse_blocks [OF assms(1)] by simp
qed

lemma unlock_free: "\<not> tunnels_lock s \<Longrightarrow> s\<lparr>tunnels_lock := False\<rparr> = s"
  by simp

lemma file_write_installs:
  assumes "\<not> tunnels_lock st" and "deref_all st (tunnels (tunnels_cache st)) = Some ts"
    and "can_open_tmp F" and "can_install F"
  shows "\<exists>st1. tunnel_file_write P F st = Inr st1 \<and>
           files st1 TUNNELS_FILENAME = Some (cache_text P ts) \<and> \<not> tunnels_lock st1"
  using assms
  by (auto simp: tunnel_file_write_def thread_lock_def thread_unlock_def rename_file_def emit_def
      deref_all_def Let_def split: option.splits)

lemma those_map_upd:
  "p \<notin> set ps \<Longrightarrow> those (map (h(p \<mapsto> t)) ps) = those (map h ps)"
  by (induction ps) auto

lemma those_append:
  "those xs = Some as \<Longrightarrow> those ys = Some bs \<Longrightarrow> those (xs @ ys) = Some (as @ bs)"
  by (induction xs arbitrary: as) (auto split: option.splits)

lemma insert_read_cache:
  assumes "\<not> tunnels_lock st" and "deref_all st (tunnels (tunnels_cache st)) = Some ts"
    and "\<forall>p\<in>set (tunnels (tunnels_cache st)). p < brk st"
  shows "\<exists>st' ts'. insert_read P st rs = Inr st' \<and>
     deref_all st' (tunnels (tunnels_cache st')) = Some (ts @ ts') \<and>
     map (\<lambda>t. (t_url t, t_age t)) ts' = map (\<lambda>(u, a). (take (CKTP_MAX_URL_LENGTH P) u, a)) rs \<and>
     list_all (\<lambda>t. t_state t = TUNNEL_STATE_CLOSED \<and> t_weight t = 1) ts' \<and>
     \<not> tunnels_lock st'"
  using assms
proof (induction rs arbitrary: st ts)
  case Nil
  then show ?case by simp
next
  case (Cons r rs)
  obtain u a where r: "r = (u, a)" by (cases r)
  let ?t = "\<lparr>t_tunnel = None, t_state = TUNNEL_STATE_CLOSED, t_reconnect = False,
             t_id = next_id st, t_age = a, t_weight = 1,
             t_url = take (CKTP_MAX_URL_LENGTH P) u\<rparr>"
  let ?st1 = "st\<lparr>heap := (heap st)(brk st \<mapsto> ?t), brk := Suc (brk st), next_id := next_id st + 1,
      tunnels_cache := tunnel_set_insert (tunnels_cache st) (brk st)\<rparr>"
  have fresh: "brk st \<notin> set (tunnels (tunnels_cache st))" using Cons.prems(3) by auto
  have step: "insert_read P st (r # rs) = insert_read P ?st1 rs"
    using Cons.prems(1) r
    by (simp add: tunnel_create_def thread_lock_def thread_unlock_def Let_def unlock_free)
  have tl: "tunnels (tunnels_cache ?st1) = tunnels (tunnels_cache st) @ [brk st]"
    by (simp add: tunnel_set_insert_def Let_def)
  have d: "deref_all ?st1 (tunnels (tunnels_cache ?st1)) = Some (ts @ [?t])"
    using Cons.prems(2) fresh
    unfolding tl deref_all_def
    by (simp add: those_map_upd those_append)
  have b: "\<forall>p\<in>set (tunnels (tunnels_cache ?st1)). p < brk ?st1"
    using Cons.prems(3) tl by (auto simp: less_Suc_eq)
  have l: "\<not> tunnels_lock ?st1" using Cons.prems(1) by simp
  from Cons.IH [OF l d b] obtain st' ts' where
    i: "insert_read P ?st1 rs = Inr st'"
    and c: "deref_all st' (tunnels (tunnels_cache st')) = Some ((ts @ [?t]) @ ts')"
    and m: "map (\<lambda>t. (t_url t, t_age t)) ts' = map (\<lambda>(u, a). (take (CKTP_MAX_URL_LENGTH P) u, a)) rs"
    and s: "list_all (\<lambda>t. t_state t = TUNNEL_STATE_CLOSED \<and> t_weight t = 1) ts'"
    and l': "\<not> tunnels_lock st'"
    by blast
  show ?case
  proof (intro exI conjI)
    show "insert_read P st (r # rs) = Inr st'" using step i by simp
    show "deref_all st' (tunnels (tunnels_cache st')) = Some (ts @ (?t # ts'))" using c by simp
    show "map (\<lambda>t. (t_url t, t_age t)) (?t # ts') =
        map (\<lambda>(u, a). (take (CKTP_MAX_URL_LENGTH P) u, a)) (r # rs)"
      using m r by simp
    show "list_all (\<lambda>t. t_state t = TUNNEL_STATE_CLOSED \<and> t_weight t = 1) (?t # ts')"
      using s by simp
    show "\<not> tunnels_lock st'" using l' .
  qed
qed

lemma cache_text_cong:
  "map (\<lambda>t. (t_url t, t_age t)) ts = map (\<lambda>t. (t_url t, t_age t)) ts' \<Longrightarrow>
   cache_text P ts = cache_text P ts'"
proof -
  assume e: "map (\<lambda>t. (t_url t, t_age t)) ts = map (\<lambda>t. (t_url t, t_age t)) ts'"
  have b: "cache_block t = (\<lambda>(u, a). ''# AGE = '' @ dec (unat a) @ [newline] @
     u @ '' '' @ dec (unat a) @ [newline, newline]) (t_url t, t_age t)" for t
    by (simp add: cache_block_def)
  have f: "map cache_block (filter (\<lambda>t. t_age t \<noteq> 0) xs) =
     map (\<lambda>(u, a). ''# AGE = '' @ dec (unat a) @ [newline] @
     u @ '' '' @ dec (unat a) @ [newline, newline])
       (filter (\<lambda>(u, a). a \<noteq> 0) (map (\<lambda>t. (t_url t, t_age t)) xs))" for xs
    by (induction xs) (auto simp: cache_block_def)
  show ?thesis unfolding cache_text_def f e ..
qed

lemma read_from_nothing:
  "tunnel_file_parse (CKTP_MAX_URL_LENGTH P) txt = ([], e) \<Longrightarrow>
   files st TUNNELS_FILENAME = Some txt \<Longrightarrow>
   tunnel_file_read P st = Inr (st\<lparr>trace := trace st @ parse_warning e\<rparr>)"
  by (simp add: tunnel_file_read_def read_from_def)

lemma damaged_parse:
  "tunnel_file_parse (CKTP_MAX_URL_LENGTH exact) damaged_file = ([([], 5), (''udp://b'', 7)], End_of_file)"
  by (simp add: damaged_file_def newline_def Let_def scan_unsigned_def isspace_def isdigit_def
      c_string_def exact_def)

lemma nameless_parse:
  "tunnel_file_parse (CKTP_MAX_URL_LENGTH exact) (cache_text exact [nameless, tunnel_B\<lparr>t_age := 7\<rparr>]) = ([], Bad_url)"
proof -
  have d: "dec 5 = ''5''" "dec 7 = ''7''" by code_simp+
  show ?thesis
    by (simp add: cache_text_def cache_block_def nameless_def d newline_def exact_def tunnel_B_def
        Let_def)
qed

text \<open>
  Claim C7 says that reading back the file \<open>tunnel_file_write\<close> wrote gives exactly the
  (url, age) pairs of the cache records whose age is not 0. As stated, for every cache,
  this fails: the format ends a url at the first space and asks for at least one
  character before it, so a record whose url is empty (or has a space in it) is not read
  back, and the records after it are lost with it. Such a record arises in the module
  itself: \<open>tunnel_file_read\<close> makes one of a line that begins with a NUL. Here the cache
  read from \<open>damaged_file\<close> holds two records of age 5 and 7; it is written and read back
  by a process that starts, and the cache of that process is empty.
\<close>

theorem nameless_record_lost:
  "\<exists>stA tsA stB stC.
     tunnel_file_read exact (start\<lparr>files := [TUNNELS_FILENAME \<mapsto> damaged_file]\<rparr>) = Inr stA \<and>
     deref_all stA (tunnels (tunnels_cache stA)) = Some tsA \<and>
     map (\<lambda>t. (t_url t, t_age t)) tsA = [([], 5), (''udp://b'', 7)] \<and>
     tunnel_file_write exact writable stA = Inr stB \<and>
     tunnel_file_read exact (start\<lparr>files := files stB\<rparr>) = Inr stC \<and>
     tunnels (tunnels_cache stC) = []"
proof -
  let ?s0 = "start\<lparr>files := [TUNNELS_FILENAME \<mapsto> damaged_file]\<rparr>"
  have s0: "\<not> tunnels_lock ?s0" "deref_all ?s0 (tunnels (tunnels_cache ?s0)) = Some []"
    "\<forall>p\<in>set (tunnels (tunnels_cache ?s0)). p < brk ?s0"
    by (simp_all add: example_defs deref_all_def)
  from insert_read_cache [OF s0, of exact "[([], 5), (''udp://b'', 7)]"]
  obtain st' tsA where
    i: "insert_read exact ?s0 [([], 5), (''udp://b'', 7)] = Inr st'"
    and dA: "deref_all st' (tunnels (tunnels_cache st')) = Some tsA"
    and mA: "map (\<lambda>t. (t_url t, t_age t)) tsA = [([], 5), (''udp://b'', 7)]"
    and lA: "\<not> tunnels_lock st'"
    by (auto simp: exact_def)
  have rA: "tunnel_file_read exact ?s0 = Inr st'"
    using damaged_parse i by (simp add: tunnel_file_read_def read_from_def parse_warning_def)
  from file_write_installs [OF lA dA, of writable exact]
  obtain stB where wB: "tunnel_file_write exact writable st' = Inr stB"
    and fB: "files stB TUNNELS_FILENAME = Some (cache_text exact tsA)"
    by (auto simp: writable_def)
  have "cache_text exact tsA = cache_text exact [nameless, tunnel_B\<lparr>t_age := 7\<rparr>]"
    using mA by (intro cache_text_cong) (simp add: nameless_def tunnel_B_def)
  then have pB: "tunnel_file_parse (CKTP_MAX_URL_LENGTH exact) (cache_text exact tsA) = ([], Bad_url)"
    using nameless_parse by simp
  let ?s1 = "start\<lparr>files := files stB\<rparr>"
  have rC: "tunnel_file_read exact ?s1 = Inr (?s1\<lparr>trace := trace ?s1 @ parse_warning Bad_url\<rparr>)"
    using pB fB by (intro read_from_nothing) simp_all
  have e: "tunnels (tunnels_cache (?s1\<lparr>trace := trace ?s1 @ parse_warning Bad_url\<rparr>)) = []"
    by (simp add: example_defs)
  show ?thesis
  proof (intro exI conjI)
    show "tunnel_file_read exact ?s0 = Inr st'" by (rule rA)
    show "deref_all st' (tunnels (tunnels_cache st')) = Some tsA" by (rule dA)
    show "map (\<lambda>t. (t_url t, t_age t)) tsA = [([], 5), (''udp://b'', 7)]" by (rule mA)
    show "tunnel_file_write exact writable st' = Inr stB" by (rule wB)
    show "tunnel_file_read exact ?s1 = Inr (?s1\<lparr>trace := trace ?s1 @ parse_warning Bad_url\<rparr>)"
      by (rule rC)
    show "tunnels (tunnels_cache (?s1\<lparr>trace := trace ?s1 @ parse_warning Bad_url\<rparr>)) = []"
      by (rule e)
  qed
qed

text \<open>
  Claim C7 as amended: when every url of the cache is one the file can hold (\<open>url_ok\<close>)
  and the program's name has no newline and no byte 0xFF in it, a \<open>tunnel_file_write\<close>
  that can open and install its temporary file leaves a file from which
  \<open>tunnel_file_read\<close>, in a process that starts, makes a cache with exactly the
  (url, age) pairs of the records whose age is not 0, in their order; the records of age
  0 are not in the file, and the comment lines and empty lines of the file are skipped.
\<close>

theorem cache_file_round_trip:
  assumes "\<not> tunnels_lock st" and "deref_all st (tunnels (tunnels_cache st)) = Some ts"
    and "\<forall>t\<in>set ts. url_ok P (t_url t)"
    and "newline \<notin> set (PROGRAM_NAME_LONG P)" and "CHR 0xFF \<notin> set (PROGRAM_NAME_LONG P)"
    and "can_open_tmp F" and "can_install F"
  shows "\<exists>st1 st2 ts2.
     tunnel_file_write P F st = Inr st1 \<and>
     files st1 TUNNELS_FILENAME = Some (cache_text P ts) \<and>
     tunnel_file_parse (CKTP_MAX_URL_LENGTH P) (cache_text P ts) =
       (map (\<lambda>t. (t_url t, t_age t)) (filter (\<lambda>t. t_age t \<noteq> 0) ts), End_of_file) \<and>
     tunnel_file_read P (start\<lparr>files := files st1\<rparr>) = Inr st2 \<and>
     deref_all st2 (tunnels (tunnels_cache st2)) = Some ts2 \<and>
     map (\<lambda>t. (t_url t, t_age t)) ts2 =
       map (\<lambda>t. (t_url t, t_age t)) (filter (\<lambda>t. t_age t \<noteq> 0) ts)"
proof -
  let ?mx = "CKTP_MAX_URL_LENGTH P"
  let ?rs = "map (\<lambda>t. (t_url t, t_age t)) (filter (\<lambda>t. t_age t \<noteq> 0) ts)"
  from file_write_installs [OF assms(1,2,6,7)]
  obtain st1 where w: "tunnel_file_write P F st = Inr st1"
    and f: "files st1 TUNNELS_FILENAME = Some (cache_text P ts)"
    by blast
  have p: "tunnel_file_parse ?mx (cache_text P ts) = (?rs, End_of_file)"
    using parse_cache_text [OF assms(3,4,5)] .
  let ?s0 = "start\<lparr>files := files st1\<rparr>"
  have s0: "\<not> tunnels_lock ?s0" "deref_all ?s0 (tunnels (tunnels_cache ?s0)) = Some []"
    "\<forall>p\<in>set (tunnels (tunnels_cache ?s0)). p < brk ?s0"
    by (simp_all add: example_defs deref_all_def)
  from insert_read_cache [OF s0, of P ?rs]
  obtain st2 ts2 where
    i: "insert_read P ?s0 ?rs = Inr st2"
    and d: "deref_all st2 (tunnels (tunnels_cache st2)) = Some ts2"
    and m: "map (\<lambda>t. (t_url t, t_age t)) ts2 = map (\<lambda>(u, a). (take ?mx u, a)) ?rs"
    by auto
  have "map (\<lambda>(u, a). (take ?mx u, a)) ?rs = ?rs"
    using assms(3) by (induction ts) (auto simp: url_ok_def)
  then have m': "map (\<lambda>t. (t_url t, t_age t)) ts2 = ?rs" using m by simp
  let ?st2 = "st2\<lparr>trace := trace st2 @ parse_warning End_of_file\<rparr>"
  have r: "tunnel_file_read P ?s0 = Inr ?st2"
    using p f i by (simp add: tunnel_file_read_def read_from_def)
  have d': "deref_all ?st2 (tunnels (tunnels_cache ?st2)) = Some ts2"
    using d by (simp add: deref_all_def)
  show ?thesis
  proof (intro exI conjI)
    show "tunnel_file_write P F st = Inr st1" by (rule w)
    show "files st1 TUNNELS_FILENAME = Some (cache_text P ts)" by (rule f)
    show "tunnel_file_parse ?mx (cache_text P ts) = (?rs, End_of_file)" by (rule p)
    show "tunnel_file_read P ?s0 = Inr ?st2" by (rule r)
    show "deref_all ?st2 (tunnels (tunnels_cache ?st2)) = Some ts2" by (rule d')
    show "map (\<lambda>t. (t_url t, t_age t)) ts2 = ?rs" by (rule m')
  qed
qed

theorem cache_file_round_trip_witness:
  "\<not> tunnels_lock three_cached \<and>
   deref_all three_cached (tunnels (tunnels_cache three_cached)) =
     Some [tunnel_A, tunnel_D, tunnel_B] \<and>
   list_all (\<lambda>t. url_ok exact (t_url t)) [tunnel_A, tunnel_D, tunnel_B] \<and>
   newline \<notin> set (PROGRAM_NAME_LONG exact) \<and> CHR 0xFF \<notin> set (PROGRAM_NAME_LONG exact) \<and>
   can_open_tmp writable \<and> can_install writable \<and>
   (\<exists>st1 st2 ts2.
      tunnel_file_write exact writable three_cached = Inr st1 \<and>
      tunnel_file_read exact (start\<lparr>files := files st1\<rparr>) = Inr st2 \<and>
      deref_all st2 (tunnels (tunnels_cache st2)) = Some ts2 \<and>
      map (\<lambda>t. (t_url t, t_age t)) ts2 = [(''udp://a'', 16), (''udp://b'', 16)])"
proof -
  have a: "\<not> tunnels_lock three_cached"
    and b: "deref_all three_cached (tunnels (tunnels_cache three_cached)) =
      Some [tunnel_A, tunnel_D, tunnel_B]"
    by (simp_all add: three_cached_def deref_all_def example_defs)
  have c: "\<forall>t\<in>set [tunnel_A, tunnel_D, tunnel_B]. url_ok exact (t_url t)"
    by (simp add: url_ok_def tunnel_D_def newline_def example_defs)
  have d: "newline \<notin> set (PROGRAM_NAME_LONG exact)" "CHR 0xFF \<notin> set (PROGRAM_NAME_LONG exact)"
    by (simp_all add: newline_def exact_def)
  have e: "can_open_tmp writable" "can_install writable"
    by (simp_all add: writable_def)
  have f: "map (\<lambda>t. (t_url t, t_age t)) (filter (\<lambda>t. t_age t \<noteq> 0) [tunnel_A, tunnel_D, tunnel_B])
      = [(''udp://a'', 16), (''udp://b'', 16)]"
    by (simp add: tunnel_D_def example_defs)
  from cache_file_round_trip [OF a b c d e] f
  have "\<exists>st1 st2 ts2.
      tunnel_file_write exact writable three_cached = Inr st1 \<and>
      tunnel_file_read exact (start\<lparr>files := files st1\<rparr>) = Inr st2 \<and>
      deref_all st2 (tunnels (tunnels_cache st2)) = Some ts2 \<and>
      map (\<lambda>t. (t_url t, t_age t)) ts2 = [(''udp://a'', 16), (''udp://b'', 16)]"
    by auto
  then show ?thesis using a b c d e by (simp add: list_all_iff)
qed

subsection \<open>Opening tunnels\<close>

lemma below_minus_one: "(0 :: 64 word) < - 1" "(1 :: 64 word) < - 1"
  by (simp_all add: word_less_nat_alt unsigned_minus_1_eq_mask mask_eq_exp_minus_1)

text \<open>
  Claim C5 says that each pass of the activate manager turns at most
  \<open>MAX_INIT_OPEN - len(active) + 1\<close> records from \<open>CLOSED\<close> to \<open>OPENING\<close>. The code does not
  when the active set holds ten tunnels or more: \<open>max\<close> is a \<open>size_t\<close>, so with ten active
  tunnels \<open>8 - 10 + 1\<close> wraps round to \<open>2^64 - 1\<close> instead of being negative, the test
  \<open>j < max\<close> never fails, and the pass opens every closed record of the cache (here both,
  where the bound of the claim allows none).
\<close>

theorem manager_opens_past_the_limit:
  "length (tunnels (tunnels_active crowded)) = 10 \<and>
   map (\<lambda>p. map_option t_state (heap crowded p)) [10, 11] =
     [Some TUNNEL_STATE_CLOSED, Some TUNNEL_STATE_CLOSED] \<and>
   (\<exists>st'. manager_pass crowded = Inr ((2, 0xFFFFFFFFFFFFFFFF), st') \<and>
      map (\<lambda>p. map_option t_state (heap st' p)) [10, 11] =
        [Some TUNNEL_STATE_OPENING, Some TUNNEL_STATE_OPENING])"
  by (simp add: manager_pass_def thread_lock_def thread_unlock_def emit_def MAX_INIT_OPEN_def
      Let_def crowded_def tunnel_C_def example_defs below_minus_one)

text \<open>
  With at most nine active tunnels nothing wraps and the bound holds. A pass is the last
  when it opened as many records as \<open>max\<close> allows, or when after the sleep the active set
  holds \<open>MAX_INIT_OPEN\<close> tunnels or more.
\<close>

lemma open_closed_bound:
  "open_closed mx ps j st = Inr (j', st') \<Longrightarrow> j \<le> mx \<Longrightarrow> j' \<le> mx"
proof (induction ps arbitrary: j st)
  case Nil
  then show ?case by simp
next
  case (Cons p ps)
  show ?case
  proof (cases "j < mx")
    case False
    then show ?thesis using Cons.prems by simp
  next
    case True
    then have "j + 1 \<le> mx" by (simp add: inc_le)
    then show ?thesis using Cons True by (auto split: option.splits if_splits)
  qed
qed

lemma manager_pass_bound:
  assumes "manager_pass st = Inr ((j, mx), st')"
    and "length (tunnels (tunnels_active st)) \<le> 9"
  shows "unat j \<le> 9 - length (tunnels (tunnels_active st))"
proof -
  let ?n = "length (tunnels (tunnels_active st))"
  from assms(1) have mx: "mx = MAX_INIT_OPEN - of_nat ?n + 1"
    by (auto simp: manager_pass_def thread_lock_def Let_def split: if_splits sum.splits)
  from assms(1) obtain st2 where
    "open_closed mx (tunnels (tunnels_cache st)) 0 (st\<lparr>tunnels_lock := True\<rparr>) = Inr (j, st2)"
    by (auto simp: manager_pass_def thread_lock_def Let_def split: if_splits sum.splits)
  then have "j \<le> mx" using open_closed_bound by fastforce
  moreover have "unat mx = 9 - ?n"
  proof -
    have "mx = of_nat (9 - ?n)" using assms(2) by (simp add: mx MAX_INIT_OPEN_def of_nat_diff)
    moreover have "unat (of_nat (9 - ?n) :: 64 word) = 9 - ?n"
      by (simp add: unat_of_nat)
    ultimately show ?thesis by simp
  qed
  ultimately show ?thesis by (simp add: word_le_nat_alt)
qed

lemma manager_stops:
  assumes "manager_pass st = Inr ((j, mx), st1)"
  shows "j = mx \<Longrightarrow> tunnel_activate_manager P env k (Suc fuel) st = Inr (Some st1)"
    and "j \<noteq> mx \<Longrightarrow>
      st2 = interfere (snd (env k))
              (emit (Sleeptime (unat (150 * SECONDS P + (fst (env k) mod 10000) * MILLISECONDS P)))
                 st1) \<Longrightarrow>
      \<not> of_nat (length (tunnels (tunnels_active st2))) < MAX_INIT_OPEN \<Longrightarrow>
      tunnel_activate_manager P env k (Suc fuel) st = Inr (Some st2)"
  using assms by (simp_all add: Let_def)

lemma trace_interfere [simp]: "trace (interfere f st) = trace st"
  by (simp add: interfere_def)

lemma heap_interfere [simp]: "heap (interfere f st) = heap (f st)"
  by (simp add: interfere_def)

lemma trace_emit [simp]: "trace (emit e st) = trace st @ [e]"
  by (simp add: emit_def)

lemma heap_emit [simp]: "heap (emit e st) = heap st"
  by (simp add: emit_def)

lemma attempts_1:
  assumes "try_activate_loop env p 1 k t st = Inr (result, st')"
  shows "attempts 1 t st p result st'"
  using assms
  apply (subst (asm) try_activate_loop.simps)
  apply (auto simp: Let_def attempts_def split: option.splits if_splits)
  done

lemma attempts_step:
  assumes a: "attempts r (t * 6) st5 p result st'"
    and tr: "trace st5 = trace st @ [Log x, Cktp_open_tunnel u None, Log y, Sleeptime (unat t)]"
    and r: "r = 1 \<or> r = 2"
  shows "attempts (Suc r) t st p result st'"
proof -
  from a obtain new t' n where
    n1: "trace st' = trace st5 @ new" and n2: "heap st' p = Some t'"
    and n3: "length (open_results new) \<le> r"
    and n4: "list_all (\<lambda>h. h = None) (butlast (open_results new))"
    and n5: "n < r" "sleep_times new = take n [unat (t * 6), unat (t * 6 * 6)]"
    and n6: "result \<longleftrightarrow> (open_results new \<noteq> [] \<and> last (open_results new) \<noteq> None) \<or>
                     t_state t' \<noteq> TUNNEL_STATE_OPENING"
    and n7: "\<not> result \<longrightarrow> open_results new = replicate r None \<and>
           sleep_times new = take (r - 1) [unat (t * 6), unat (t * 6 * 6)]"
    and n8: "open_results new \<noteq> [] \<and> last (open_results new) \<noteq> None \<longrightarrow>
           t_tunnel t' = last (open_results new)"
    unfolding attempts_def by blast
  let ?new = "[Log x, Cktp_open_tunnel u None, Log y, Sleeptime (unat t)] @ new"
  have o: "open_results ?new = None # open_results new" by simp
  have s: "sleep_times ?new = unat t # sleep_times new" by simp
  have "trace st' = trace st @ ?new" using n1 tr by simp
  moreover have "length (open_results ?new) \<le> Suc r" using n3 o by simp
  moreover have "list_all (\<lambda>h. h = None) (butlast (open_results ?new))"
    using n4 o by simp
  moreover have "\<exists>m<Suc r. sleep_times ?new = take m [unat t, unat (t * 6)]"
  proof -
    have "sleep_times ?new = take (Suc n) [unat t, unat (t * 6)]"
      using n5 r s by (cases n) auto
    then show ?thesis using n5(1) by blast
  qed
  moreover have "result \<longleftrightarrow> (open_results ?new \<noteq> [] \<and> last (open_results ?new) \<noteq> None) \<or>
                     t_state t' \<noteq> TUNNEL_STATE_OPENING"
    using n6 o by auto
  moreover have "\<not> result \<longrightarrow> open_results ?new = replicate (Suc r) None \<and>
           sleep_times ?new = take (Suc r - 1) [unat t, unat (t * 6)]"
    using n7 o s r by auto
  moreover have "open_results ?new \<noteq> [] \<and> last (open_results ?new) \<noteq> None \<longrightarrow>
           t_tunnel t' = last (open_results ?new)"
    using n8 o by auto
  ultimately show ?thesis unfolding attempts_def using n2 by blast
qed

lemma attempts_2:
  assumes "try_activate_loop env p 2 k t st = Inr (result, st')"
  shows "attempts 2 t st p result st'"
proof -
  have step: "attempts 2 t st p result st'"
    if "try_activate_loop env p 1 k' (t * 6) st5 = Inr (result, st')"
      and "trace st5 = trace st @ [Log x, Cktp_open_tunnel u None, Log y, Sleeptime (unat t)]"
    for k' st5 x u y
    using attempts_step [OF attempts_1 [OF that(1)] that(2)] by (simp add: numeral_2_eq_2)
  show ?thesis
    using assms
    apply (subst (asm) try_activate_loop.simps)
    apply (auto simp: Let_def split: option.splits if_splits intro: step)
    apply (auto simp: attempts_def)
    done
qed

lemma attempts_3:
  assumes "try_activate_loop env p 3 k t st = Inr (result, st')"
  shows "attempts 3 t st p result st'"
proof -
  have step: "attempts 3 t st p result st'"
    if "try_activate_loop env p 2 k' (t * 6) st5 = Inr (result, st')"
      and "trace st5 = trace st @ [Log x, Cktp_open_tunnel u None, Log y, Sleeptime (unat t)]"
    for k' st5 x u y
    using attempts_step [OF attempts_2 [OF that(1)] that(2)] by (simp add: numeral_3_eq_3)
  show ?thesis
    using assms
    apply (subst (asm) try_activate_loop.simps)
    apply (auto simp: Let_def split: option.splits if_splits intro: step)
    apply (auto simp: attempts_def)
    done
qed

lemma stagger_bound:
  fixes random :: "32 word" and ms s :: "64 word"
  assumes "unat s = 1000 * unat ms" and "ms \<noteq> 0"
  shows "unat (ucast (random mod 1000) * ms) < unat s"
proof -
  have "random mod 1000 < 1000" by (rule word_mod_less_divisor) simp
  then have "unat (random mod 1000) < 1000" by (simp add: word_less_nat_alt)
  moreover have "unat (ucast (random mod 1000) :: 64 word) = take_bit 64 (unat (random mod 1000))"
    by (simp add: unsigned_ucast_eq)
  ultimately have u: "unat (ucast (random mod 1000) :: 64 word) < 1000"
    by (simp add: take_bit_nat_eq_self)
  have "0 < unat ms" using assms(2) by (simp add: unat_gt_0)
  then have a: "unat (ucast (random mod 1000) :: 64 word) * unat ms < 1000 * unat ms"
    using u by (rule_tac mult_less_mono1)
  have b: "unat (ucast (random mod 1000) * ms) \<le> unat (ucast (random mod 1000) :: 64 word) * unat ms"
    by (simp add: unat_word_ariths)
  show ?thesis using a b assms(1) by linarith
qed

text \<open>
  Claim C6. \<open>tunnel_try_activate\<close> calls \<open>cktp_open_tunnel\<close> at most \<open>MAX_RETRIES = 3\<close>
  times, and never again after a call that returned a tunnel. Before the second call it
  sleeps 10 seconds plus the stagger, before the third six times as long; the stagger
  is the random number modulo 1000, in milliseconds, so less than a second. It returns
  false only after three calls that all returned \<open>NULL\<close>, with the state still \<open>OPENING\<close>;
  it returns true when the last call returned a tunnel, which is then the record's, and
  also when no call returned one and the state it last read is not \<open>OPENING\<close>.
\<close>

theorem try_activate_attempts:
  assumes "tunnel_try_activate P random env st p = Inr (result, st')"
  shows "MAX_RETRIES = 3 \<and>
    (\<exists>new t'. trace st' = trace st @ new \<and> heap st' p = Some t' \<and>
       length (open_results new) \<le> unat MAX_RETRIES \<and>
       list_all (\<lambda>h. h = None) (butlast (open_results new)) \<and>
       (\<exists>n\<le>2. sleep_times new =
          take n [unat (10 * SECONDS P + ucast (random mod 1000) * MILLISECONDS P),
                  unat ((10 * SECONDS P + ucast (random mod 1000) * MILLISECONDS P) * 6)]) \<and>
       (result \<longleftrightarrow> (open_results new \<noteq> [] \<and> last (open_results new) \<noteq> None) \<or>
                    t_state t' \<noteq> TUNNEL_STATE_OPENING) \<and>
       (\<not> result \<longrightarrow> open_results new = [None, None, None] \<and>
          sleep_times new =
            [unat (10 * SECONDS P + ucast (random mod 1000) * MILLISECONDS P),
             unat ((10 * SECONDS P + ucast (random mod 1000) * MILLISECONDS P) * 6)]) \<and>
       (open_results new \<noteq> [] \<and> last (open_results new) \<noteq> None \<longrightarrow>
          t_tunnel t' = last (open_results new))) \<and>
    (unat (SECONDS P) = 1000 * unat (MILLISECONDS P) \<and> MILLISECONDS P \<noteq> 0 \<longrightarrow>
       unat (ucast (random mod 1000) * MILLISECONDS P) < unat (SECONDS P))"
proof -
  let ?t0 = "10 * SECONDS P + ucast (random mod 1000) * MILLISECONDS P"
  let ?st2 = "thread_unlock (st\<lparr>tunnels_lock := True\<rparr>)"
  from assms have l: "try_activate_loop env p 3 0 ?t0 ?st2 = Inr (result, st')"
    by (auto simp: tunnel_try_activate_def thread_lock_def MAX_RETRIES_def Let_def
        split: if_splits)
  have tr: "trace ?st2 = trace st" by (simp add: thread_unlock_def)
  from attempts_3 [OF l] obtain new t' n where
    n1: "trace st' = trace ?st2 @ new" and n2: "heap st' p = Some t'"
    and n3: "length (open_results new) \<le> 3"
    and n4: "list_all (\<lambda>h. h = None) (butlast (open_results new))"
    and n5: "n < 3" "sleep_times new = take n [unat ?t0, unat (?t0 * 6)]"
    and n6: "result \<longleftrightarrow> (open_results new \<noteq> [] \<and> last (open_results new) \<noteq> None) \<or>
                     t_state t' \<noteq> TUNNEL_STATE_OPENING"
    and n7: "\<not> result \<longrightarrow> open_results new = replicate 3 None \<and>
           sleep_times new = take (3 - 1) [unat ?t0, unat (?t0 * 6)]"
    and n8: "open_results new \<noteq> [] \<and> last (open_results new) \<noteq> None \<longrightarrow>
           t_tunnel t' = last (open_results new)"
    unfolding attempts_def by blast
  have m: "unat MAX_RETRIES = 3" by (simp add: MAX_RETRIES_def)
  have "\<exists>new t'. trace st' = trace st @ new \<and> heap st' p = Some t' \<and>
       length (open_results new) \<le> unat MAX_RETRIES \<and>
       list_all (\<lambda>h. h = None) (butlast (open_results new)) \<and>
       (\<exists>n\<le>2. sleep_times new = take n [unat ?t0, unat (?t0 * 6)]) \<and>
       (result \<longleftrightarrow> (open_results new \<noteq> [] \<and> last (open_results new) \<noteq> None) \<or>
                    t_state t' \<noteq> TUNNEL_STATE_OPENING) \<and>
       (\<not> result \<longrightarrow> open_results new = [None, None, None] \<and>
          sleep_times new = [unat ?t0, unat (?t0 * 6)]) \<and>
       (open_results new \<noteq> [] \<and> last (open_results new) \<noteq> None \<longrightarrow>
          t_tunnel t' = last (open_results new))"
  proof (intro exI conjI)
    show "trace st' = trace st @ new" using n1 tr by simp
    show "heap st' p = Some t'" by (rule n2)
    show "length (open_results new) \<le> unat MAX_RETRIES" using n3 m by simp
    show "list_all (\<lambda>h. h = None) (butlast (open_results new))" by (rule n4)
    show "n \<le> 2" using n5(1) by simp
    show "sleep_times new = take n [unat ?t0, unat (?t0 * 6)]" by (rule n5(2))
    show "result \<longleftrightarrow> (open_results new \<noteq> [] \<and> last (open_results new) \<noteq> None) \<or>
                    t_state t' \<noteq> TUNNEL_STATE_OPENING" by (rule n6)
    show "\<not> result \<longrightarrow> open_results new = [None, None, None] \<and>
          sleep_times new = [unat ?t0, unat (?t0 * 6)]"
      using n7 by (simp add: numeral_3_eq_3)
    show "open_results new \<noteq> [] \<and> last (open_results new) \<noteq> None \<longrightarrow>
          t_tunnel t' = last (open_results new)" by (rule n8)
  qed
  moreover have "MAX_RETRIES = 3" by (simp add: MAX_RETRIES_def)
  moreover have "unat (SECONDS P) = 1000 * unat (MILLISECONDS P) \<and> MILLISECONDS P \<noteq> 0 \<longrightarrow>
       unat (ucast (random mod 1000) * MILLISECONDS P) < unat (SECONDS P)"
    using stagger_bound by blast
  ultimately show ?thesis by blast
qed

theorem try_activate_attempts_witness:
  "\<exists>st'. tunnel_try_activate exact 1234 second_try one_opening 0 = Inr (True, st') \<and>
     (\<exists>new t'. trace st' = trace one_opening @ new \<and> heap st' 0 = Some t' \<and>
        open_results new = [None, Some 7] \<and> sleep_times new = [10234000] \<and>
        t_tunnel t' = Some 7)"
proof -
  have run: "\<exists>st'. tunnel_try_activate exact 1234 second_try one_opening 0 = Inr (True, st')
      \<and> open_results (trace st') = [None, Some 7] \<and> sleep_times (trace st') = [10234000]
      \<and> trace one_opening = []"
    apply (simp add: tunnel_try_activate_def thread_lock_def thread_unlock_def MAX_RETRIES_def
        Let_def)
    apply (subst try_activate_loop.simps)
    apply (simp add: Let_def interfere_def emit_def second_try_def one_opening_def tunnel_O_def
        example_defs)
    apply (subst try_activate_loop.simps)
    apply (simp add: Let_def interfere_def emit_def second_try_def one_opening_def tunnel_O_def
        example_defs)
    done
  then obtain st' where r: "tunnel_try_activate exact 1234 second_try one_opening 0 = Inr (True, st')"
    and o: "open_results (trace st') = [None, Some 7]"
    and s: "sleep_times (trace st') = [10234000]" and e: "trace one_opening = []"
    by blast
  from try_activate_attempts [OF r] obtain new t' where
    n: "trace st' = trace one_opening @ new" and h: "heap st' 0 = Some t'"
    and t: "open_results new \<noteq> [] \<and> last (open_results new) \<noteq> None \<longrightarrow>
          t_tunnel t' = last (open_results new)"
    by blast
  have "new = trace st'" using n e by simp
  then have "open_results new = [None, Some 7]" "sleep_times new = [10234000]"
    using o s by simp_all
  moreover from this t have "t_tunnel t' = Some 7" by simp
  ultimately show ?thesis using r n h by blast
qed



subsection \<open>Adding a tunnel\<close>

lemma lookup_from_absent:
  "those (map h ps) = Some ts \<Longrightarrow> u \<notin> t_url ` set ts \<Longrightarrow> lookup_from h ps u k = Inr (- 1)"
  by (induction ps arbitrary: ts k) (auto split: option.splits)

lemma lookup_from_present:
  "those (map h ps) = Some ts \<Longrightarrow> i < length ts \<Longrightarrow> t_url (ts ! i) = u \<Longrightarrow>
   (\<forall>j<i. t_url (ts ! j) \<noteq> u) \<Longrightarrow> lookup_from h ps u k = Inr (int (k + i))"
proof (induction ps arbitrary: ts k i)
  case Nil
  then show ?case by simp
next
  case (Cons p ps)
  from Cons.prems(1) obtain t ts' where t: "h p = Some t" and ts': "those (map h ps) = Some ts'"
    and ts: "ts = t # ts'"
    by (auto split: option.splits)
  show ?case
  proof (cases i)
    case 0
    then show ?thesis using Cons.prems t ts by simp
  next
    case (Suc i')
    have "t_url t \<noteq> u" using Cons.prems(4) Suc ts by auto
    moreover have "lookup_from h ps u (Suc k) = Inr (int (Suc k + i'))"
    proof (rule Cons.IH [OF ts'])
      show "i' < length ts'" using Cons.prems(2) Suc ts by simp
      show "t_url (ts' ! i') = u" using Cons.prems(3) Suc ts by simp
      show "\<forall>j<i'. t_url (ts' ! j) \<noteq> u" using Cons.prems(4) Suc ts by auto
    qed
    ultimately show ?thesis using t Suc by simp
  qed
qed

text \<open>
  Claim C9. \<open>tunnel_add\<close> with a url that \<open>cktp_parse_url\<close> rejects returns with the state
  as it was. With a url that the cache holds, first at index \<open>i\<close>, in state \<open>OPEN\<close> or
  \<open>OPENING\<close>, it returns with a warning and no other change. With a url the cache holds in
  another state it takes that record, and with a url the cache does not hold it creates
  a record of age \<open>TUNNEL_INIT_AGE\<close> and appends it to the cache; in both cases it sets
  the record's state to \<open>OPENING\<close>, creates a thread that runs \<open>tunnel_activate\<close> on it, and
  calls \<open>tunnel_file_write\<close>.
\<close>

theorem tunnel_add_cases:
  assumes lock: "\<not> tunnels_lock st"
    and ts: "deref_all st (tunnels (tunnels_cache st)) = Some ts"
  shows
   "(\<not> cktp_parse_url P u \<longrightarrow> tunnel_add P F st u = Inr st)
  \<and> (cktp_parse_url P u \<and> i < length ts \<and> t_url (ts ! i) = u \<and> (\<forall>j<i. t_url (ts ! j) \<noteq> u) \<and>
       (t_state (ts ! i) = TUNNEL_STATE_OPEN \<or> t_state (ts ! i) = TUNNEL_STATE_OPENING)
       \<longrightarrow> tunnel_add P F st u =
             Inr (emit (Warning (''unable to add tunnel '' @ u @
                    ''; tunnel is already open or opening'')) st))
  \<and> (cktp_parse_url P u \<and> i < length ts \<and> t_url (ts ! i) = u \<and> (\<forall>j<i. t_url (ts ! j) \<noteq> u) \<and>
       t_state (ts ! i) \<noteq> TUNNEL_STATE_OPEN \<and> t_state (ts ! i) \<noteq> TUNNEL_STATE_OPENING
       \<longrightarrow> tunnel_add P F st u =
             tunnel_file_write P F
               (emit (Thread_create (Tunnel_activate (tunnels (tunnels_cache st) ! i)))
                 (emit (Log (''added tunnel '' @ u))
                   (st\<lparr>heap := (heap st)(tunnels (tunnels_cache st) ! i \<mapsto>
                                  (ts ! i)\<lparr>t_state := TUNNEL_STATE_OPENING\<rparr>)\<rparr>))))
  \<and> (cktp_parse_url P u \<and> u \<notin> t_url ` set ts
       \<longrightarrow> tunnel_add P F st u =
             tunnel_file_write P F
               (emit (Thread_create (Tunnel_activate (brk st)))
                 (emit (Log (''added tunnel '' @ u))
                   (st\<lparr>brk := Suc (brk st), next_id := next_id st + 1,
                        tunnels_cache := tunnel_set_insert (tunnels_cache st) (brk st),
                        heap := (heap st)(brk st \<mapsto>
                          \<lparr>t_tunnel = None, t_state = TUNNEL_STATE_OPENING, t_reconnect = False,
                           t_id = next_id st, t_age = TUNNEL_INIT_AGE, t_weight = 1,
                           t_url = take (CKTP_MAX_URL_LENGTH P) u\<rparr>)\<rparr>))))"
proof -
  let ?st1 = "st\<lparr>tunnels_lock := True\<rparr>"
  have l: "thread_lock st = Inr ?st1" using lock by (simp add: thread_lock_def)
  have th: "those (map (heap st) (tunnels (tunnels_cache st))) = Some ts"
    using ts by (simp add: deref_all_def)
  have len: "length ts = length (tunnels (tunnels_cache st))"
    using deref_all_length [OF ts] .
  have c1: "\<not> cktp_parse_url P u \<longrightarrow> tunnel_add P F st u = Inr st"
    by (simp add: tunnel_add_def)
  have found: "tunnel_set_lookup ?st1 (tunnels_cache ?st1) u = Inr (int i) \<and>
       heap st (tunnels (tunnels_cache st) ! i) = Some (ts ! i)"
    if "i < length ts" "t_url (ts ! i) = u" "\<forall>j<i. t_url (ts ! j) \<noteq> u"
  proof -
    have "lookup_from (heap st) (tunnels (tunnels_cache st)) u 0 = Inr (int (0 + i))"
      using lookup_from_present [OF th that] .
    moreover have "heap st (tunnels (tunnels_cache st) ! i) = Some (ts ! i)"
      using deref_all_nth [OF ts] that(1) len by simp
    ultimately show ?thesis by (simp add: tunnel_set_lookup_def)
  qed
  have c2: "cktp_parse_url P u \<and> i < length ts \<and> t_url (ts ! i) = u \<and> (\<forall>j<i. t_url (ts ! j) \<noteq> u) \<and>
       (t_state (ts ! i) = TUNNEL_STATE_OPEN \<or> t_state (ts ! i) = TUNNEL_STATE_OPENING)
       \<longrightarrow> tunnel_add P F st u =
             Inr (emit (Warning (''unable to add tunnel '' @ u @
                    ''; tunnel is already open or opening'')) st)"
    using found l lock
    by (auto simp: tunnel_add_def Let_def thread_unlock_def emit_def)
  have c3: "cktp_parse_url P u \<and> i < length ts \<and> t_url (ts ! i) = u \<and> (\<forall>j<i. t_url (ts ! j) \<noteq> u) \<and>
       t_state (ts ! i) \<noteq> TUNNEL_STATE_OPEN \<and> t_state (ts ! i) \<noteq> TUNNEL_STATE_OPENING
       \<longrightarrow> tunnel_add P F st u =
             tunnel_file_write P F
               (emit (Thread_create (Tunnel_activate (tunnels (tunnels_cache st) ! i)))
                 (emit (Log (''added tunnel '' @ u))
                   (st\<lparr>heap := (heap st)(tunnels (tunnels_cache st) ! i \<mapsto>
                                  (ts ! i)\<lparr>t_state := TUNNEL_STATE_OPENING\<rparr>)\<rparr>)))"
    using found l lock
    by (auto simp: tunnel_add_def add_open_def Let_def thread_unlock_def emit_def unlock_free)
  have c4: "cktp_parse_url P u \<and> u \<notin> t_url ` set ts
       \<longrightarrow> tunnel_add P F st u =
             tunnel_file_write P F
               (emit (Thread_create (Tunnel_activate (brk st)))
                 (emit (Log (''added tunnel '' @ u))
                   (st\<lparr>brk := Suc (brk st), next_id := next_id st + 1,
                        tunnels_cache := tunnel_set_insert (tunnels_cache st) (brk st),
                        heap := (heap st)(brk st \<mapsto>
                          \<lparr>t_tunnel = None, t_state = TUNNEL_STATE_OPENING, t_reconnect = False,
                           t_id = next_id st, t_age = TUNNEL_INIT_AGE, t_weight = 1,
                           t_url = take (CKTP_MAX_URL_LENGTH P) u\<rparr>)\<rparr>)))"
    using lookup_from_absent [OF th, of u 0] l lock
    by (auto simp: tunnel_add_def add_open_def tunnel_create_def tunnel_set_lookup_def Let_def
        thread_unlock_def emit_def unlock_free)
  show ?thesis using c1 c2 c3 c4 by blast
qed

theorem tunnel_add_cases_witness:
  "\<not> tunnels_lock one_open \<and>
   deref_all one_open (tunnels (tunnels_cache one_open)) = Some [tunnel_A] \<and>
   \<not> cktp_parse_url exact [] \<and> tunnel_add exact writable one_open [] = Inr one_open \<and>
   cktp_parse_url exact ''udp://a'' \<and> t_url ([tunnel_A] ! 0) = ''udp://a'' \<and>
   t_state ([tunnel_A] ! 0) = TUNNEL_STATE_OPEN \<and>
   tunnel_add exact writable one_open ''udp://a'' =
     Inr (emit (Warning (''unable to add tunnel '' @ ''udp://a'' @
            ''; tunnel is already open or opening'')) one_open) \<and>
   cktp_parse_url exact ''udp://z'' \<and> ''udp://z'' \<notin> t_url ` set [tunnel_A] \<and>
   tunnel_add exact writable one_open ''udp://z'' =
     tunnel_file_write exact writable
       (emit (Thread_create (Tunnel_activate 1))
         (emit (Log (''added tunnel '' @ ''udp://z''))
           (one_open\<lparr>brk := 2, next_id := 2,
              tunnels_cache := \<lparr>tunnels = [0, 1], set_size = 16,
                                  spare = replicate 14 Unwritten\<rparr>,
              heap := (heap one_open)(1 \<mapsto>
                \<lparr>t_tunnel = None, t_state = TUNNEL_STATE_OPENING, t_reconnect = False,
                 t_id = 1, t_age = 16, t_weight = 1, t_url = ''udp://z''\<rparr>)\<rparr>))) \<and>
   \<not> tunnels_lock one_closed \<and>
   deref_all one_closed (tunnels (tunnels_cache one_closed)) = Some [tunnel_C] \<and>
   cktp_parse_url exact ''udp://c'' \<and> t_url ([tunnel_C] ! 0) = ''udp://c'' \<and>
   t_state ([tunnel_C] ! 0) = TUNNEL_STATE_CLOSED \<and>
   tunnel_add exact writable one_closed ''udp://c'' =
     tunnel_file_write exact writable
       (emit (Thread_create (Tunnel_activate 0))
         (emit (Log (''added tunnel '' @ ''udp://c''))
           (one_closed\<lparr>heap := (heap one_closed)(0 \<mapsto>
              tunnel_C\<lparr>t_state := TUNNEL_STATE_OPENING\<rparr>)\<rparr>)))"
proof -
  have l: "\<not> tunnels_lock one_open"
    and d: "deref_all one_open (tunnels (tunnels_cache one_open)) = Some [tunnel_A]"
    by (simp_all add: deref_all_def example_defs)
  have l': "\<not> tunnels_lock one_closed"
    and d': "deref_all one_closed (tunnels (tunnels_cache one_closed)) = Some [tunnel_C]"
    by (simp_all add: deref_all_def one_closed_def tunnel_C_def example_defs)
  have p: "\<not> cktp_parse_url exact []" "cktp_parse_url exact ''udp://a''"
    "cktp_parse_url exact ''udp://z''" "cktp_parse_url exact ''udp://c''"
    by (simp_all add: exact_def)
  have u: "t_url ([tunnel_A] ! 0) = ''udp://a''" "t_state ([tunnel_A] ! 0) = TUNNEL_STATE_OPEN"
    "''udp://z'' \<notin> t_url ` set [tunnel_A]"
    "t_url ([tunnel_C] ! 0) = ''udp://c''" "t_state ([tunnel_C] ! 0) = TUNNEL_STATE_CLOSED"
    by (simp_all add: tunnel_C_def example_defs)
  have s: "brk one_open = 1" "next_id one_open = 1"
    "tunnel_set_insert (tunnels_cache one_open) 1 = \<lparr>tunnels = [0, 1], set_size = 16,
                                                       spare = replicate 14 Unwritten\<rparr>"
    "CKTP_MAX_URL_LENGTH exact = 1024" "TUNNEL_INIT_AGE = 16"
    "tunnels (tunnels_cache one_closed) ! 0 = 0"
    by (simp_all add: tunnel_set_insert_def TUNNEL_INIT_AGE_def one_closed_def example_defs)
  have c1: "tunnel_add exact writable one_open [] = Inr one_open"
    using tunnel_add_cases [OF l d, of exact "[]" writable 0] p by simp
  have c2: "tunnel_add exact writable one_open ''udp://a'' =
     Inr (emit (Warning (''unable to add tunnel '' @ ''udp://a'' @
            ''; tunnel is already open or opening'')) one_open)"
    using tunnel_add_cases [OF l d, of exact "''udp://a''" writable 0] p u by simp
  have c4: "tunnel_add exact writable one_open ''udp://z'' =
     tunnel_file_write exact writable
       (emit (Thread_create (Tunnel_activate 1))
         (emit (Log (''added tunnel '' @ ''udp://z''))
           (one_open\<lparr>brk := 2, next_id := 2,
              tunnels_cache := \<lparr>tunnels = [0, 1], set_size = 16,
                                  spare = replicate 14 Unwritten\<rparr>,
              heap := (heap one_open)(1 \<mapsto>
                \<lparr>t_tunnel = None, t_state = TUNNEL_STATE_OPENING, t_reconnect = False,
                 t_id = 1, t_age = 16, t_weight = 1, t_url = ''udp://z''\<rparr>)\<rparr>)))"
    using tunnel_add_cases [OF l d, of exact "''udp://z''" writable 0] p u s
    by (simp add: numeral_2_eq_2)
  have c3: "tunnel_add exact writable one_closed ''udp://c'' =
     tunnel_file_write exact writable
       (emit (Thread_create (Tunnel_activate 0))
         (emit (Log (''added tunnel '' @ ''udp://c''))
           (one_closed\<lparr>heap := (heap one_closed)(0 \<mapsto>
              tunnel_C\<lparr>t_state := TUNNEL_STATE_OPENING\<rparr>)\<rparr>)))"
    using tunnel_add_cases [OF l' d', of exact "''udp://c''" writable 0] p u s by simp
  show ?thesis
    using l d l' d' p u c1 c2 c3 c4 by (intro conjI)
qed

end
